theory Spec2Isabelle
  imports Main "HOL-Library.Word"
begin

section \<open>Flow validation utilities of the chatbot flow builder\<close>

text \<open>
  A shallow embedding of \<^verbatim>\<open>src/utils/validation.ts\<close> and of the types of
  \<^verbatim>\<open>src/types/index.ts\<close> it uses.
\<close>

subsection \<open>JavaScript strings and numbers\<close>

text \<open>
  A JavaScript string is a sequence of 16-bit UTF-16 code units; \<open>===\<close> on strings
  compares the sequences. \<open>lit\<close> turns an ASCII literal of this theory into such a string.
\<close>

type_synonym jsstring = "16 word list"

definition lit :: "string \<Rightarrow> jsstring" where
  "lit s = map (\<lambda>c. of_nat (of_char c)) s"

text \<open>
  The template literals of \<^verbatim>\<open>validateFlow\<close> splice the \<^verbatim>\<open>length\<close> of an array into
  a string: a non-negative integer, printed in decimal without leading zeros.
\<close>

definition digitUnit :: "nat \<Rightarrow> 16 word" where
  "digitUnit d = of_nat (48 + d)"

function numberToString :: "nat \<Rightarrow> jsstring" where
  "numberToString n =
     (if n < 10 then [digitUnit n]
      else numberToString (n div 10) @ [digitUnit (n mod 10)])"
  by pat_completeness auto
termination
  by (relation "measure (\<lambda>n. n)") auto

declare numberToString.simps [simp del]

definition isDigit :: "16 word \<Rightarrow> bool" where
  "isDigit c = (48 \<le> c \<and> c \<le> 57)"

definition parseDigits :: "jsstring \<Rightarrow> nat" where
  "parseDigits s = foldl (\<lambda>a c. 10 * a + (unat c - 48)) 0 s"

text \<open>
  \<^verbatim>\<open>String.prototype.trim\<close> removes the leading and trailing code units that are
  WhiteSpace or LineTerminator in ECMA-262: TAB, LF, VT, FF, CR, SPACE, NBSP, U+1680,
  U+2000 to U+200A, U+2028, U+2029, U+202F, U+205F, U+3000 and U+FEFF.
\<close>

definition isWhiteSpace :: "16 word \<Rightarrow> bool" where
  "isWhiteSpace c =
     (c \<in> set [0x0009, 0x000A, 0x000B, 0x000C, 0x000D, 0x0020, 0x00A0, 0x1680,
               0x2028, 0x2029, 0x202F, 0x205F, 0x3000, 0xFEFF]
      \<or> (0x2000 \<le> c \<and> c \<le> 0x200A))"

definition trim :: "jsstring \<Rightarrow> jsstring" where
  "trim s = rev (dropWhile isWhiteSpace (rev (dropWhile isWhiteSpace s)))"

subsection \<open>The graph model (\<^verbatim>\<open>src/types/index.ts\<close>)\<close>

text \<open>
  Optional fields (\<^verbatim>\<open>text?\<close>, \<^verbatim>\<open>sourceHandle?\<close>, \<^verbatim>\<open>targetHandle?\<close>) are options,
  \<open>None\<close> standing for \<^verbatim>\<open>undefined\<close>. The field \<^verbatim>\<open>text\<close> is written \<open>text'\<close> and
  \<^verbatim>\<open>id\<close> is written \<open>id'\<close>, the plain names being taken in Isabelle; the \<^verbatim>\<open>type\<close> of a
  node is \<open>nodeType\<close> and the \<^verbatim>\<open>id\<close> of an edge is \<open>edgeId\<close>, field names being global.
  The \<^verbatim>\<open>position\<close> of a node (two floating-point numbers) is read by none of the
  functions below and is left out of the record.
\<close>

datatype NodeType = TextMessage

record NodeData =
  label :: jsstring
  text' :: "jsstring option"
  type' :: NodeType

record CustomNode =
  id' :: jsstring
  nodeType :: NodeType
  data :: NodeData

record CustomEdge =
  edgeId :: jsstring
  source :: jsstring
  target :: jsstring
  sourceHandle :: "jsstring option"
  targetHandle :: "jsstring option"

record ValidationResult =
  isValid :: bool
  errors :: "jsstring list"

subsection \<open>\<^verbatim>\<open>validateFlow\<close>\<close>

text \<open>The three template literals pushed onto \<^verbatim>\<open>errors\<close>, as functions of the count.\<close>

definition startingPointError :: "nat \<Rightarrow> jsstring" where
  "startingPointError n =
     lit ''Flow validation failed: '' @ numberToString n
       @ lit '' nodes have empty target handles. ''
       @ lit ''Only one node can be the starting point of the flow.''"

definition emptyTextError :: "nat \<Rightarrow> jsstring" where
  "emptyTextError n =
     numberToString n @ lit '' node(s) have empty message text. ''
       @ lit ''Please add text to all message nodes before saving.''"

definition isolatedNodesError :: "nat \<Rightarrow> jsstring" where
  "isolatedNodesError n =
     numberToString n @ lit '' nodes are completely isolated (no connections). ''
       @ lit ''Please connect them to the flow or remove them.''"

text \<open>
  \<^verbatim>\<open>!node.data.text || node.data.text.trim() === ''\<close>: an absent text and the empty
  string are both falsy.
\<close>

definition validateFlow :: "CustomNode list \<Rightarrow> CustomEdge list \<Rightarrow> ValidationResult" where
  "validateFlow nodes edges =
     (let errors0 = [] in
      if length nodes \<le> 1 then \<lparr>isValid = True, errors = []\<rparr>
      else
        let nodesWithoutIncomingConnections =
              filter (\<lambda>node. \<not> list_ex (\<lambda>edge. target edge = id' node) edges) nodes;
            errors1 =
              (if length nodesWithoutIncomingConnections > 1
               then errors0 @ [startingPointError (length nodesWithoutIncomingConnections)]
               else errors0);
            nodesWithEmptyText =
              filter (\<lambda>node. case text' (data node) of
                                None \<Rightarrow> True
                              | Some t \<Rightarrow> t = [] \<or> trim t = []) nodes;
            errors2 =
              (if length nodesWithEmptyText > 0
               then errors1 @ [emptyTextError (length nodesWithEmptyText)]
               else errors1);
            isolatedNodes =
              filter (\<lambda>node.
                        let hasIncoming = list_ex (\<lambda>edge. target edge = id' node) edges;
                            hasOutgoing = list_ex (\<lambda>edge. source edge = id' node) edges
                        in \<not> hasIncoming \<and> \<not> hasOutgoing) nodes;
            errors3 =
              (if length isolatedNodes > 1
               then errors2 @ [isolatedNodesError (length isolatedNodes)]
               else errors2)
        in \<lparr>isValid = (length errors3 = 0), errors = errors3\<rparr>)"

subsection \<open>\<^verbatim>\<open>canConnect\<close>\<close>

text \<open>
  \<^verbatim>\<open>Array.prototype.find\<close> returns the first matching edge, an object and so truthy, or
  \<^verbatim>\<open>undefined\<close>. The parameters \<^verbatim>\<open>sourceHandle\<close> and \<^verbatim>\<open>targetHandle\<close> carry a prime,
  the plain names being the fields of an edge.
\<close>

definition canConnect ::
  "jsstring \<Rightarrow> jsstring option \<Rightarrow> jsstring \<Rightarrow> jsstring option \<Rightarrow> CustomEdge list \<Rightarrow> bool" where
  "canConnect sourceNodeId sourceHandle' targetNodeId targetHandle' edges =
     (if sourceNodeId = targetNodeId then False
      else
        let existingConnection =
              find (\<lambda>edge. source edge = sourceNodeId \<and> sourceHandle edge = sourceHandle') edges
        in if existingConnection \<noteq> None then False
           else
             let duplicateConnection =
                   find (\<lambda>edge. source edge = sourceNodeId \<and> target edge = targetNodeId
                               \<and> sourceHandle edge = sourceHandle'
                               \<and> targetHandle edge = targetHandle') edges
             in if duplicateConnection \<noteq> None then False else True)"

subsection \<open>\<^verbatim>\<open>hasFlowCycles\<close>\<close>

text \<open>
  \<^verbatim>\<open>adjacencyList\<close> is an ordinary object, created by \<^verbatim>\<open>{}\<close> and used as a dictionary
  from node ids to arrays of target ids. Reading \<^verbatim>\<open>adjacencyList[key]\<close> is a property
  lookup: when the object has no own property of that name, the lookup goes on along the
  prototype chain, and so finds the properties that every object inherits from
  \<^verbatim>\<open>Object.prototype\<close>. The values such a read can give are the arrays stored by the
  function, \<^verbatim>\<open>undefined\<close>, an inherited method, \<^verbatim>\<open>Object.prototype\<close> itself (through the
  inherited accessor \<^verbatim>\<open>__proto__\<close>) and, once the prototype is an array (see below), its
  \<^verbatim>\<open>length\<close> and its elements.
\<close>

datatype TypeError = TypeError

datatype jsvalue =
    JUndefined
  | JArray "jsstring list"
  | JFunction
  | JObject
  | JNumber nat
  | JString jsstring

fun truthy :: "jsvalue \<Rightarrow> bool" where
  "truthy JUndefined = False"
| "truthy (JArray xs) = True"
| "truthy JFunction = True"
| "truthy JObject = True"
| "truthy (JNumber n) = (n \<noteq> 0)"
| "truthy (JString s) = (s \<noteq> [])"

text \<open>
  The methods of \<^verbatim>\<open>Object.prototype\<close> (ECMA-262, with the accessor-related methods of
  its Annex B that browsers and Node.js provide). The accessor \<^verbatim>\<open>__proto__\<close> is treated
  apart.
\<close>

definition objectPrototypeMethods :: "jsstring list" where
  "objectPrototypeMethods =
     [lit ''constructor'', lit ''hasOwnProperty'', lit ''isPrototypeOf'',
      lit ''propertyIsEnumerable'', lit ''toLocaleString'', lit ''toString'', lit ''valueOf'',
      lit ''__defineGetter__'', lit ''__defineSetter__'', lit ''__lookupGetter__'',
      lit ''__lookupSetter__'']"

text \<open>
  The state of \<^verbatim>\<open>adjacencyList\<close>: its own properties, and its prototype. The assignment
  \<^verbatim>\<open>adjacencyList[id] = []\<close> creates an own property for every id but \<^verbatim>\<open>__proto__\<close>: that
  name reaches the setter inherited from \<^verbatim>\<open>Object.prototype\<close>, which makes the new array
  the prototype of the object. \<open>protoArray\<close> is \<open>None\<close> while the prototype is
  \<^verbatim>\<open>Object.prototype\<close>, and holds the array that replaced it otherwise.
\<close>

record adjacency =
  ownProps :: "jsstring \<rightharpoonup> jsstring list"
  protoArray :: "jsstring list option"

definition emptyObject :: adjacency where
  "emptyObject = \<lparr>ownProps = Map.empty, protoArray = None\<rparr>"

text \<open>
  Own properties of an array are \<^verbatim>\<open>length\<close> and its indices, written in decimal. The
  names of the methods of \<^verbatim>\<open>Array.prototype\<close> differ between editions of ECMAScript; they
  matter only once an array is the prototype, and are the parameter \<open>arrayPrototypeHas\<close>
  of the model.
\<close>

definition isArrayIndex :: "jsstring \<Rightarrow> bool" where
  "isArrayIndex key = (key = numberToString (parseDigits key))"

definition getProp :: "(jsstring \<Rightarrow> bool) \<Rightarrow> adjacency \<Rightarrow> jsstring \<Rightarrow> jsvalue" where
  "getProp arrayPrototypeHas obj key =
     (case ownProps obj key of
        Some xs \<Rightarrow> JArray xs
      | None \<Rightarrow>
          (case protoArray obj of
             None \<Rightarrow>
               if key = lit ''__proto__'' then JObject
               else if key \<in> set objectPrototypeMethods then JFunction
               else JUndefined
           | Some p \<Rightarrow>
               if key = lit ''__proto__'' then JArray p
               else if key = lit ''length'' then JNumber (length p)
               else if isArrayIndex key \<and> parseDigits key < length p
                 then JString (p ! parseDigits key)
               else if arrayPrototypeHas key then JFunction
               else if key \<in> set objectPrototypeMethods then JFunction
               else JUndefined))"

text \<open>
  \<^verbatim>\<open>nodeIds.forEach(id => { adjacencyList[id] = []; })\<close> is
  \<open>foldl setEmptyArray emptyObject nodeIds\<close>.
\<close>

definition setEmptyArray :: "adjacency \<Rightarrow> jsstring \<Rightarrow> adjacency" where
  "setEmptyArray obj key =
     (if key = lit ''__proto__'' then obj\<lparr>protoArray := Some []\<rparr>
      else obj\<lparr>ownProps := (ownProps obj)(key \<mapsto> [])\<rparr>)"

text \<open>
  The body of \<^verbatim>\<open>edges.forEach\<close>. When \<^verbatim>\<open>adjacencyList[edge.source]\<close> is truthy, its
  \<^verbatim>\<open>push\<close> is called: on an array it appends the target (to the own property, or to the
  array that is the prototype when the source is \<^verbatim>\<open>__proto__\<close>); a function, an object, a
  number and a string have no \<^verbatim>\<open>push\<close>, and calling it throws a \<^verbatim>\<open>TypeError\<close>, which
  leaves \<^verbatim>\<open>hasFlowCycles\<close>.
\<close>

definition pushTarget ::
  "(jsstring \<Rightarrow> bool) \<Rightarrow> adjacency \<Rightarrow> CustomEdge \<Rightarrow> TypeError + adjacency" where
  "pushTarget arrayPrototypeHas obj edge =
     (if truthy (getProp arrayPrototypeHas obj (source edge)) then
        (case ownProps obj (source edge) of
           Some xs \<Rightarrow> Inr (obj\<lparr>ownProps := (ownProps obj)(source edge \<mapsto> xs @ [target edge])\<rparr>)
         | None \<Rightarrow>
             (case getProp arrayPrototypeHas obj (source edge) of
                JArray p \<Rightarrow> Inr (obj\<lparr>protoArray := Some (p @ [target edge])\<rparr>)
              | _ \<Rightarrow> Inl TypeError))
      else Inr obj)"

fun forEachEdge ::
  "(jsstring \<Rightarrow> bool) \<Rightarrow> adjacency \<Rightarrow> CustomEdge list \<Rightarrow> TypeError + adjacency" where
  "forEachEdge arrayPrototypeHas obj [] = Inr obj"
| "forEachEdge arrayPrototypeHas obj (edge # rest) =
     (case pushTarget arrayPrototypeHas obj edge of
        Inl e \<Rightarrow> Inl e
      | Inr obj' \<Rightarrow> forEachEdge arrayPrototypeHas obj' rest)"

text \<open>
  \<^verbatim>\<open>for (const neighbor of adjacencyList[nodeId] || [])\<close>: an array is iterated by
  elements and a string by code points (a surrogate pair is one code point); the other
  truthy values are not iterable, and the loop throws a \<^verbatim>\<open>TypeError\<close>.
\<close>

definition isLeadSurrogate :: "16 word \<Rightarrow> bool" where
  "isLeadSurrogate c = (0xD800 \<le> c \<and> c \<le> 0xDBFF)"

definition isTrailSurrogate :: "16 word \<Rightarrow> bool" where
  "isTrailSurrogate c = (0xDC00 \<le> c \<and> c \<le> 0xDFFF)"

fun codePoints :: "jsstring \<Rightarrow> jsstring list" where
  "codePoints [] = []"
| "codePoints [c] = [[c]]"
| "codePoints (c # d # rest) =
     (if isLeadSurrogate c \<and> isTrailSurrogate d then [c, d] # codePoints rest
      else [c] # codePoints (d # rest))"

definition neighborsOf ::
  "(jsstring \<Rightarrow> bool) \<Rightarrow> adjacency \<Rightarrow> jsstring \<Rightarrow> TypeError + jsstring list" where
  "neighborsOf arrayPrototypeHas adjacencyList nodeId =
     (let v = getProp arrayPrototypeHas adjacencyList nodeId in
      case (if truthy v then v else JArray []) of
        JArray xs \<Rightarrow> Inr xs
      | JString s \<Rightarrow> Inr (codePoints s)
      | _ \<Rightarrow> Inl TypeError)"

text \<open>
  The two sets \<^verbatim>\<open>visited\<close> and \<^verbatim>\<open>recursionStack\<close> are shared by all calls of
  \<^verbatim>\<open>hasCycle\<close>; the model passes them through. A call returns \<open>Inl TypeError\<close> when it
  throws, and otherwise its boolean result with the sets as it leaves them. The first
  argument bounds the depth of the recursion and \<open>None\<close> means that the bound was
  reached; the call stack of JavaScript is taken to be deep enough. \<open>forNeighbors\<close> is the
  \<^verbatim>\<open>for\<close> loop of \<^verbatim>\<open>hasCycle\<close> and \<open>forNodeIds\<close> the final loop over \<^verbatim>\<open>nodeIds\<close>.
\<close>

record dfs =
  visited :: "jsstring set"
  recursionStack :: "jsstring set"

fun hasCycle ::
  "nat \<Rightarrow> (jsstring \<Rightarrow> bool) \<Rightarrow> adjacency \<Rightarrow> dfs \<Rightarrow> jsstring \<Rightarrow> (TypeError + bool \<times> dfs) option"
and forNeighbors ::
  "nat \<Rightarrow> (jsstring \<Rightarrow> bool) \<Rightarrow> adjacency \<Rightarrow> dfs \<Rightarrow> jsstring list \<Rightarrow> (TypeError + bool \<times> dfs) option"
where
  "hasCycle 0 arrayPrototypeHas adjacencyList st nodeId = None"
| "hasCycle (Suc depth) arrayPrototypeHas adjacencyList st nodeId =
     (let st1 = st\<lparr>visited := insert nodeId (visited st),
                    recursionStack := insert nodeId (recursionStack st)\<rparr>
      in case neighborsOf arrayPrototypeHas adjacencyList nodeId of
           Inl e \<Rightarrow> Some (Inl e)
         | Inr neighbors \<Rightarrow>
             (case forNeighbors depth arrayPrototypeHas adjacencyList st1 neighbors of
                Some (Inr (False, st2)) \<Rightarrow>
                  Some (Inr (False, st2\<lparr>recursionStack := recursionStack st2 - {nodeId}\<rparr>))
              | r \<Rightarrow> r))"
| "forNeighbors depth arrayPrototypeHas adjacencyList st [] = Some (Inr (False, st))"
| "forNeighbors depth arrayPrototypeHas adjacencyList st (neighbor # rest) =
     (if neighbor \<notin> visited st then
        (case hasCycle depth arrayPrototypeHas adjacencyList st neighbor of
           Some (Inr (False, st')) \<Rightarrow> forNeighbors depth arrayPrototypeHas adjacencyList st' rest
         | r \<Rightarrow> r)
      else if neighbor \<in> recursionStack st then Some (Inr (True, st))
      else forNeighbors depth arrayPrototypeHas adjacencyList st rest)"

fun forNodeIds ::
  "nat \<Rightarrow> (jsstring \<Rightarrow> bool) \<Rightarrow> adjacency \<Rightarrow> dfs \<Rightarrow> jsstring list \<Rightarrow> (TypeError + bool) option" where
  "forNodeIds depth arrayPrototypeHas adjacencyList st [] = Some (Inr False)"
| "forNodeIds depth arrayPrototypeHas adjacencyList st (nodeId # rest) =
     (if nodeId \<notin> visited st then
        (case hasCycle depth arrayPrototypeHas adjacencyList st nodeId of
           None \<Rightarrow> None
         | Some (Inl e) \<Rightarrow> Some (Inl e)
         | Some (Inr (True, st')) \<Rightarrow> Some (Inr True)
         | Some (Inr (False, st')) \<Rightarrow> forNodeIds depth arrayPrototypeHas adjacencyList st' rest)
      else forNodeIds depth arrayPrototypeHas adjacencyList st rest)"

text \<open>
  The recursion visits a key at most once, so its depth is at most the number of keys
  that can occur: node ids, targets of edges, and code points of targets. \<open>callDepth\<close>
  exceeds that number.
\<close>

definition callDepth :: "CustomNode list \<Rightarrow> CustomEdge list \<Rightarrow> nat" where
  "callDepth nodes edges =
     Suc (length nodes + length edges + sum_list (map (\<lambda>edge. length (target edge)) edges))"

definition hasFlowCycles ::
  "(jsstring \<Rightarrow> bool) \<Rightarrow> CustomNode list \<Rightarrow> CustomEdge list \<Rightarrow> (TypeError + bool) option" where
  "hasFlowCycles arrayPrototypeHas nodes edges =
     (let nodeIds = map id' nodes;
          adjacencyList0 = foldl setEmptyArray emptyObject nodeIds
      in case forEachEdge arrayPrototypeHas adjacencyList0 edges of
           Inl e \<Rightarrow> Some (Inl e)
         | Inr adjacencyList \<Rightarrow>
             forNodeIds (callDepth nodes edges) arrayPrototypeHas adjacencyList
               \<lparr>visited = {}, recursionStack = {}\<rparr> nodeIds)"

subsection \<open>Notions used to state the properties\<close>

text \<open>
  The three counts behind the diagnostics of \<^verbatim>\<open>validateFlow\<close>, stated on the graph: the
  nodes that are the target of no edge, the nodes whose text is absent or empty once
  trimmed, and the nodes that are neither source nor target of any edge.
\<close>

definition sourcelessCount :: "CustomNode list \<Rightarrow> CustomEdge list \<Rightarrow> nat" where
  "sourcelessCount nodes edges =
     length (filter (\<lambda>node. \<forall>edge\<in>set edges. target edge \<noteq> id' node) nodes)"

definition emptyTextCount :: "CustomNode list \<Rightarrow> nat" where
  "emptyTextCount nodes =
     length (filter (\<lambda>node. text' (data node) = None \<or> trim (the (text' (data node))) = []) nodes)"

definition isolatedCount :: "CustomNode list \<Rightarrow> CustomEdge list \<Rightarrow> nat" where
  "isolatedCount nodes edges =
     length (filter (\<lambda>node. \<forall>edge\<in>set edges. target edge \<noteq> id' node \<and> source edge \<noteq> id' node) nodes)"

text \<open>
  The two conditions on the existing edges that \<^verbatim>\<open>canConnect\<close> looks for: an edge leaving
  the same output port, and an edge equal to the requested one in all four components.
\<close>

definition hasSameSourcePort :: "jsstring \<Rightarrow> jsstring option \<Rightarrow> CustomEdge list \<Rightarrow> bool" where
  "hasSameSourcePort s sh edges = (\<exists>edge\<in>set edges. source edge = s \<and> sourceHandle edge = sh)"

definition hasExactDuplicate ::
  "jsstring \<Rightarrow> jsstring option \<Rightarrow> jsstring \<Rightarrow> jsstring option \<Rightarrow> CustomEdge list \<Rightarrow> bool" where
  "hasExactDuplicate s sh t th edges =
     (\<exists>edge\<in>set edges. source edge = s \<and> target edge = t
                        \<and> sourceHandle edge = sh \<and> targetHandle edge = th)"

text \<open>
  Sample data for the concrete instances below: a text-message node as the editor creates
  it (\<^verbatim>\<open>type: 'textMessage'\<close>, label \<^verbatim>\<open>'Send Message'\<close>), and an edge without handles.
\<close>

definition textNode :: "string \<Rightarrow> jsstring option \<Rightarrow> CustomNode" where
  "textNode name t =
     \<lparr>id' = lit name, nodeType = TextMessage,
      data = \<lparr>label = lit ''Send Message'', text' = t, type' = TextMessage\<rparr>\<rparr>"

definition plainEdge :: "string \<Rightarrow> string \<Rightarrow> CustomEdge" where
  "plainEdge s t =
     \<lparr>edgeId = lit ''edge_'' @ lit s @ lit ''_'' @ lit t, source = lit s, target = lit t,
      sourceHandle = None, targetHandle = None\<rparr>"

text \<open>
  The graph of the specification of \<^verbatim>\<open>hasFlowCycles\<close>: its vertices are the node ids, its
  arcs the edges whose source and target are both node ids. It has a directed cycle when
  some node id reaches itself along one arc or more.
\<close>

definition knownEdges :: "CustomNode list \<Rightarrow> CustomEdge list \<Rightarrow> CustomEdge list" where
  "knownEdges nodes edges =
     filter (\<lambda>edge. source edge \<in> id' ` set nodes \<and> target edge \<in> id' ` set nodes) edges"

definition flowArcs :: "CustomNode list \<Rightarrow> CustomEdge list \<Rightarrow> (jsstring \<times> jsstring) set" where
  "flowArcs nodes edges =
     {(source edge, target edge) | edge.
        edge \<in> set edges \<and> source edge \<in> id' ` set nodes \<and> target edge \<in> id' ` set nodes}"

definition hasDirectedCycle :: "CustomNode list \<Rightarrow> CustomEdge list \<Rightarrow> bool" where
  "hasDirectedCycle nodes edges = (\<exists>v\<in>id' ` set nodes. (v, v) \<in> (flowArcs nodes edges)\<^sup>+)"

text \<open>
  The keys an object inherits. The inputs on which the lookups of \<^verbatim>\<open>hasFlowCycles\<close> find
  own properties only: no node is called \<^verbatim>\<open>__proto__\<close>, and a source or target that is no
  node id is no inherited key.
\<close>

definition inheritedKeys :: "jsstring list" where
  "inheritedKeys = lit ''__proto__'' # objectPrototypeMethods"

definition plainKeys :: "CustomNode list \<Rightarrow> CustomEdge list \<Rightarrow> bool" where
  "plainKeys nodes edges =
     (lit ''__proto__'' \<notin> id' ` set nodes
      \<and> (\<forall>edge\<in>set edges.
            (source edge \<notin> id' ` set nodes \<longrightarrow> source edge \<notin> set inheritedKeys)
          \<and> (target edge \<notin> id' ` set nodes \<longrightarrow> target edge \<notin> set inheritedKeys)))"

subsection \<open>Notions used in the proofs about the traversal\<close>

text \<open>
  A relation is cyclic when some element reaches itself. The nodes a traversal has
  finished are the visited ones that are no longer on the recursion stack. The invariant
  of the traversal over a set of keys \<open>U\<close> and arcs \<open>E\<close>: the stack is visited, the
  visited keys are in \<open>U\<close>, the successors of finished keys are finished, and no finished
  key lies on a cycle.
\<close>

definition cyclic :: "('a \<times> 'a) set \<Rightarrow> bool" where
  "cyclic E = (\<exists>v. (v, v) \<in> E\<^sup>+)"

definition finished :: "dfs \<Rightarrow> jsstring set" where
  "finished st = visited st - recursionStack st"

definition dfsInv :: "jsstring set \<Rightarrow> (jsstring \<times> jsstring) set \<Rightarrow> dfs \<Rightarrow> bool" where
  "dfsInv U E st =
     (recursionStack st \<subseteq> visited st \<and> visited st \<subseteq> U
      \<and> E `` finished st \<subseteq> finished st
      \<and> (\<forall>u\<in>finished st. (u, u) \<notin> E\<^sup>+))"

text \<open>
  \<open>graphView\<close>: on the keys of \<open>U\<close> every lookup of neighbours succeeds and gives the
  successors in \<open>E\<close>. \<open>dfsPost\<close> is what a call or a loop guarantees: a cycle when it
  answers true; otherwise the stack is restored, the visited set has grown, the invariant
  holds and the keys in \<open>done\<close> are finished.
\<close>

definition graphView ::
  "(jsstring \<Rightarrow> bool) \<Rightarrow> adjacency \<Rightarrow> jsstring set \<Rightarrow> (jsstring \<times> jsstring) set \<Rightarrow> bool" where
  "graphView aph adj U E =
     (finite U \<and> E \<subseteq> U \<times> U
      \<and> (\<forall>k\<in>U. \<exists>xs. neighborsOf aph adj k = Inr xs \<and> set xs = E `` {k}))"

definition dfsPost ::
  "jsstring set \<Rightarrow> (jsstring \<times> jsstring) set \<Rightarrow> dfs \<Rightarrow> jsstring set \<Rightarrow> bool \<Rightarrow> dfs \<Rightarrow> bool" where
  "dfsPost U E st done b st' =
     (if b then cyclic E
      else recursionStack st' = recursionStack st \<and> visited st \<subseteq> visited st'
           \<and> dfsInv U E st' \<and> done \<subseteq> finished st')"

definition hasCycleSpec ::
  "nat \<Rightarrow> (jsstring \<Rightarrow> bool) \<Rightarrow> adjacency \<Rightarrow> jsstring set \<Rightarrow> (jsstring \<times> jsstring) set \<Rightarrow> bool" where
  "hasCycleSpec depth aph adj U E =
     (\<forall>st x. dfsInv U E st \<longrightarrow> x \<in> U \<longrightarrow> x \<notin> visited st
        \<longrightarrow> (\<forall>g\<in>recursionStack st. (g, x) \<in> E\<^sup>*)
        \<longrightarrow> card (U - visited st) \<le> depth
        \<longrightarrow> (\<exists>b st'. hasCycle depth aph adj st x = Some (Inr (b, st'))
                     \<and> dfsPost U E st {x} b st'))"

definition nodeLoopPost ::
  "jsstring set \<Rightarrow> (jsstring \<times> jsstring) set \<Rightarrow> jsstring set \<Rightarrow> bool \<Rightarrow> bool" where
  "nodeLoopPost U E done b =
     (if b then cyclic E
      else \<exists>st'. dfsInv U E st' \<and> recursionStack st' = {} \<and> done \<subseteq> visited st')"

text \<open>
  The arcs that the adjacency object stores (every edge whose source is a node id), and
  the list it stores for one source.
\<close>

definition outArcs :: "jsstring set \<Rightarrow> CustomEdge list \<Rightarrow> (jsstring \<times> jsstring) set" where
  "outArcs ids edges = {(source edge, target edge) | edge. edge \<in> set edges \<and> source edge \<in> ids}"

definition targetsFrom :: "CustomEdge list \<Rightarrow> jsstring \<Rightarrow> jsstring list" where
  "targetsFrom edges k = map target (filter (\<lambda>edge. source edge = k) edges)"

text \<open>
  For the proof that the depth bound is never reached, whatever the keys are: all stored
  arrays hold targets only, the keys are closed under lookups, and a call that answers
  false has only added to the visited set.
\<close>

definition arraysWithin :: "jsstring set \<Rightarrow> adjacency \<Rightarrow> bool" where
  "arraysWithin T obj =
     ((\<forall>k xs. ownProps obj k = Some xs \<longrightarrow> set xs \<subseteq> T)
      \<and> (\<forall>p. protoArray obj = Some p \<longrightarrow> set p \<subseteq> T))"

definition codePointsOf :: "jsstring set \<Rightarrow> jsstring set" where
  "codePointsOf T = (\<Union>t\<in>T. set (codePoints t))"

definition keysClosed :: "(jsstring \<Rightarrow> bool) \<Rightarrow> adjacency \<Rightarrow> jsstring set \<Rightarrow> bool" where
  "keysClosed aph adj U =
     (finite U \<and> (\<forall>k\<in>U. \<forall>xs. neighborsOf aph adj k = Inr xs \<longrightarrow> set xs \<subseteq> U))"

definition growsOnFalse :: "dfs \<Rightarrow> (TypeError + bool \<times> dfs) \<Rightarrow> bool" where
  "growsOnFalse st r = (\<forall>st'. r = Inr (False, st') \<longrightarrow> visited st \<subseteq> visited st')"

definition returnsSpec :: "nat \<Rightarrow> (jsstring \<Rightarrow> bool) \<Rightarrow> adjacency \<Rightarrow> jsstring set \<Rightarrow> bool" where
  "returnsSpec depth aph adj U =
     (\<forall>st x. x \<in> U \<longrightarrow> x \<notin> visited st \<longrightarrow> card (U - visited st) \<le> depth
        \<longrightarrow> (\<exists>r. hasCycle depth aph adj st x = Some r \<and> growsOnFalse st r))"

definition hasKey :: "adjacency \<Rightarrow> jsstring \<Rightarrow> bool" where
  "hasKey obj k = (ownProps obj k \<noteq> None \<or> (k = lit ''__proto__'' \<and> protoArray obj \<noteq> None))"

section \<open>Auxiliary facts\<close>

subsection \<open>Decimal numerals and the error messages\<close>

lemma find_not_None_iff: "(find P xs \<noteq> None) = (\<exists>x\<in>set xs. P x)"
  by (auto simp add: find_None_iff)

lemma unat_digitUnit: "k < 10 \<Longrightarrow> unat (digitUnit k) = 48 + k"
  unfolding digitUnit_def by (subst unat_of_nat) simp

lemma numberToString_digits: "c \<in> set (numberToString n) \<Longrightarrow> isDigit c"
proof (induction n arbitrary: c rule: numberToString.induct)
  case (1 n)
  have d: "isDigit (digitUnit k)" if "k < 10" for k
    using that unfolding isDigit_def
    by (simp add: word_le_nat_alt unat_digitUnit)
  show ?case
  proof (cases "n < 10")
    case True
    with 1 d show ?thesis by (simp add: numberToString.simps[of n])
  next
    case False
    with 1 d[of "n mod 10"] show ?thesis by (auto simp add: numberToString.simps[of n])
  qed
qed

lemma parseDigits_snoc: "parseDigits (s @ [c]) = 10 * parseDigits s + (unat c - 48)"
  by (simp add: parseDigits_def)

lemma parseDigits_numberToString: "parseDigits (numberToString n) = n"
proof (induction n rule: numberToString.induct)
  case (1 n)
  have u: "unat (digitUnit k) - 48 = k" if "k < 10" for k
    using that by (simp add: unat_digitUnit)
  show ?case
  proof (cases "n < 10")
    case True
    then show ?thesis using u[of n] by (simp add: numberToString.simps[of n] parseDigits_def)
  next
    case False
    then show ?thesis using 1 u[of "n mod 10"]
      by (simp add: numberToString.simps[of n] parseDigits_snoc)
  qed
qed

lemma numberToString_inj: "numberToString m = numberToString n \<Longrightarrow> m = n"
  by (metis parseDigits_numberToString)

lemma trim_Nil: "trim [] = []"
  by (simp add: trim_def)

lemma validateFlow_errors:
  assumes "1 < length nodes"
  shows "errors (validateFlow nodes edges) =
           (if 1 < sourcelessCount nodes edges then [startingPointError (sourcelessCount nodes edges)] else [])
         @ (if 0 < emptyTextCount nodes then [emptyTextError (emptyTextCount nodes)] else [])
         @ (if 1 < isolatedCount nodes edges then [isolatedNodesError (isolatedCount nodes edges)] else [])"
proof -
  have a: "filter (\<lambda>node. \<not> list_ex (\<lambda>edge. target edge = id' node) edges) nodes
         = filter (\<lambda>node. \<forall>edge\<in>set edges. target edge \<noteq> id' node) nodes"
    by (rule filter_cong) (auto simp: list_ex_iff)
  have b: "filter (\<lambda>node. case text' (data node) of None \<Rightarrow> True | Some t \<Rightarrow> t = [] \<or> trim t = []) nodes
         = filter (\<lambda>node. text' (data node) = None \<or> trim (the (text' (data node))) = []) nodes"
    by (rule filter_cong) (auto simp: trim_Nil split: option.splits)
  have c: "filter (\<lambda>node. let hasIncoming = list_ex (\<lambda>edge. target edge = id' node) edges;
                            hasOutgoing = list_ex (\<lambda>edge. source edge = id' node) edges
                        in \<not> hasIncoming \<and> \<not> hasOutgoing) nodes
         = filter (\<lambda>node. \<forall>edge\<in>set edges. target edge \<noteq> id' node \<and> source edge \<noteq> id' node) nodes"
    by (rule filter_cong) (auto simp: list_ex_iff Let_def)
  show ?thesis
    using assms unfolding validateFlow_def a b c
    by (simp add: Let_def sourcelessCount_def emptyTextCount_def isolatedCount_def)
qed

lemma validateFlow_isValid: "isValid (validateFlow nodes edges) = (errors (validateFlow nodes edges) = [])"
  by (simp add: validateFlow_def Let_def)

lemma dropDigits_numberToString:
  "dropWhile isDigit (numberToString n @ rest) = dropWhile isDigit rest"
  by (rule dropWhile_append2) (rule numberToString_digits)

lemma dropDigits_start: "dropWhile isDigit (startingPointError n) = startingPointError n"
  by (simp add: startingPointError_def lit_def isDigit_def)

lemma dropDigits_empty: "dropWhile isDigit (emptyTextError n) =
   lit '' node(s) have empty message text. '' @ lit ''Please add text to all message nodes before saving.''"
  unfolding emptyTextError_def dropDigits_numberToString 
  by (simp add: lit_def isDigit_def)

lemma dropDigits_isolated: "dropWhile isDigit (isolatedNodesError n) =
   lit '' nodes are completely isolated (no connections). '' @ lit ''Please connect them to the flow or remove them.''"
  unfolding isolatedNodesError_def dropDigits_numberToString 
  by (simp add: lit_def isDigit_def)

lemma hd_start: "hd (startingPointError n) = 70"
  by (simp add: startingPointError_def lit_def)

lemma start_neq_empty: "startingPointError j \<noteq> emptyTextError k"
proof
  assume "startingPointError j = emptyTextError k"
  then have "dropWhile isDigit (startingPointError j) = dropWhile isDigit (emptyTextError k)" by simp
  then have "hd (startingPointError j) = hd (lit '' node(s) have empty message text. '' @ lit ''Please add text to all message nodes before saving.'')"
    unfolding dropDigits_start dropDigits_empty by simp
  then show False unfolding hd_start by (simp add: lit_def)
qed

lemma start_neq_isolated: "startingPointError j \<noteq> isolatedNodesError k"
proof
  assume "startingPointError j = isolatedNodesError k"
  then have "dropWhile isDigit (startingPointError j) = dropWhile isDigit (isolatedNodesError k)" by simp
  then have "hd (startingPointError j) = hd (lit '' nodes are completely isolated (no connections). '' @ lit ''Please connect them to the flow or remove them.'')"
    unfolding dropDigits_start dropDigits_isolated by simp
  then show False unfolding hd_start by (simp add: lit_def)
qed

lemma empty_neq_isolated: "emptyTextError j \<noteq> isolatedNodesError k"
proof
  assume "emptyTextError j = isolatedNodesError k"
  then have "dropWhile isDigit (emptyTextError j) = dropWhile isDigit (isolatedNodesError k)" by simp
  then show False unfolding dropDigits_empty dropDigits_isolated by (simp add: lit_def)
qed

lemma start_inj: "startingPointError j = startingPointError k \<Longrightarrow> j = k"
  unfolding startingPointError_def by (simp add: numberToString_inj)

lemma empty_inj: "emptyTextError j = emptyTextError k \<Longrightarrow> j = k"
  unfolding emptyTextError_def by (simp add: numberToString_inj)

lemma isolated_inj: "isolatedNodesError j = isolatedNodesError k \<Longrightarrow> j = k"
  unfolding isolatedNodesError_def by (simp add: numberToString_inj)

lemmas error_distinct = start_neq_empty start_neq_isolated empty_neq_isolated
  start_neq_empty[symmetric] start_neq_isolated[symmetric] empty_neq_isolated[symmetric]

lemma start_mem:
  assumes "1 < length nodes"
  shows "startingPointError k \<in> set (errors (validateFlow nodes edges))
         \<longleftrightarrow> k = sourcelessCount nodes edges \<and> 1 < sourcelessCount nodes edges"
  unfolding validateFlow_errors[OF assms]
  by (auto simp: error_distinct dest: start_inj)

lemma empty_mem:
  assumes "1 < length nodes"
  shows "emptyTextError k \<in> set (errors (validateFlow nodes edges))
         \<longleftrightarrow> k = emptyTextCount nodes \<and> 0 < emptyTextCount nodes"
  unfolding validateFlow_errors[OF assms]
  by (auto simp: error_distinct dest: empty_inj)

lemma isolated_mem:
  assumes "1 < length nodes"
  shows "isolatedNodesError k \<in> set (errors (validateFlow nodes edges))
         \<longleftrightarrow> k = isolatedCount nodes edges \<and> 1 < isolatedCount nodes edges"
  unfolding validateFlow_errors[OF assms]
  by (auto simp: error_distinct dest: isolated_inj)

lemma isolated_le_sourceless: "isolatedCount nodes edges \<le> sourcelessCount nodes edges"
  unfolding isolatedCount_def sourcelessCount_def
  by (induction nodes) auto

lemma canConnect_eq:
  "canConnect s sh t th edges = (s \<noteq> t \<and> \<not> hasSameSourcePort s sh edges)"
  unfolding canConnect_def Let_def find_not_None_iff hasSameSourcePort_def by auto

lemma exactDuplicate_sameSourcePort:
  "hasExactDuplicate s sh t th edges \<Longrightarrow> hasSameSourcePort s sh edges"
  unfolding hasExactDuplicate_def hasSameSourcePort_def by auto

lemma example_counts:
  "sourcelessCount [textNode ''A'' (Some (lit ''hi'')), textNode ''B'' (Some (lit ''hi''))] [] = 2"
  "emptyTextCount [textNode ''A'' (Some (lit ''hi'')), textNode ''B'' (Some (lit ''hi''))] = 0"
  "isolatedCount [textNode ''A'' (Some (lit ''hi'')), textNode ''B'' (Some (lit ''hi''))] [] = 2"
  by (simp_all add: sourcelessCount_def emptyTextCount_def isolatedCount_def textNode_def lit_def
        trim_def isWhiteSpace_def)

lemma emptyTextError_1:
  "emptyTextError 1 =
     lit ''1 node(s) have empty message text. Please add text to all message nodes before saving.''"
  by (simp add: emptyTextError_def numberToString.simps digitUnit_def lit_def)

lemma scenario_counts:
  assumes "text' (data a) = Some (lit ''hi'')" "text' (data b) = Some []"
    "source e = id' a" "target e = id' b"
  shows "sourcelessCount [a, b] [e] \<le> 1" "emptyTextCount [a, b] = 1" "isolatedCount [a, b] [e] = 0"
  using assms
  by (simp_all add: sourcelessCount_def emptyTextCount_def isolatedCount_def lit_def
        trim_def isWhiteSpace_def)

subsection \<open>The traversal on a graph\<close>

lemma hasCycleSpecD:
  assumes "hasCycleSpec depth aph adj U E" "dfsInv U E st" "x \<in> U" "x \<notin> visited st"
    "\<forall>g\<in>recursionStack st. (g, x) \<in> E\<^sup>*" "card (U - visited st) \<le> depth"
  shows "\<exists>b st'. hasCycle depth aph adj st x = Some (Inr (b, st')) \<and> dfsPost U E st {x} b st'"
  using assms(1)[unfolded hasCycleSpec_def, rule_format, of st x] assms(2-6) by simp

lemma dfsPost_True: "cyclic E \<Longrightarrow> dfsPost U E st done True st'"
  by (simp add: dfsPost_def)

lemma dfsPost_FalseD:
  assumes "dfsPost U E st done False st'"
  shows "recursionStack st' = recursionStack st" "visited st \<subseteq> visited st'"
    "dfsInv U E st'" "done \<subseteq> finished st'"
  using assms by (simp_all add: dfsPost_def)

lemma dfsPost_FalseI:
  "recursionStack st' = recursionStack st \<Longrightarrow> visited st \<subseteq> visited st' \<Longrightarrow> dfsInv U E st'
   \<Longrightarrow> done \<subseteq> finished st' \<Longrightarrow> dfsPost U E st done False st'"
  by (simp add: dfsPost_def)

lemma card_unvisited_mono:
  assumes "finite U" "visited st \<subseteq> visited st1" "card (U - visited st) \<le> depth"
  shows "card (U - visited st1) \<le> depth"
proof -
  have "U - visited st1 \<subseteq> U - visited st" using assms(2) by auto
  with assms(1) have "card (U - visited st1) \<le> card (U - visited st)"
    by (intro card_mono) auto
  with assms(3) show ?thesis by simp
qed

lemma forNeighbors_spec:
  assumes G: "graphView aph adj U E" and H: "hasCycleSpec depth aph adj U E"
  shows "dfsInv U E st \<Longrightarrow> x \<in> recursionStack st \<Longrightarrow> set xs \<subseteq> E `` {x}
     \<Longrightarrow> (\<forall>g\<in>recursionStack st. (g, x) \<in> E\<^sup>*)
     \<Longrightarrow> card (U - visited st) \<le> depth
     \<Longrightarrow> \<exists>b st'. forNeighbors depth aph adj st xs = Some (Inr (b, st'))
                 \<and> dfsPost U E st (set xs) b st'"
proof (induction xs arbitrary: st)
  case Nil
  have "dfsPost U E st (set []) False st"
    using Nil.prems(1) by (simp add: dfsPost_def)
  then show ?case by (intro exI[of _ False] exI[of _ st]) simp
next
  case (Cons y rest)
  from G have finU: "finite U" and EU: "E \<subseteq> U \<times> U" by (simp_all add: graphView_def)
  from Cons.prems(3) have xy: "(x, y) \<in> E" and rest: "set rest \<subseteq> E `` {x}" by simp_all
  from xy EU have yU: "y \<in> U" by auto
  show ?case
  proof (cases "y \<in> visited st")
    case False
    have path: "\<forall>g\<in>recursionStack st. (g, y) \<in> E\<^sup>*"
    proof
      fix g assume "g \<in> recursionStack st"
      with Cons.prems(4) have "(g, x) \<in> E\<^sup>*" by simp
      then show "(g, y) \<in> E\<^sup>*" using xy by (rule rtrancl_into_rtrancl)
    qed
    from hasCycleSpecD[OF H Cons.prems(1) yU False path Cons.prems(5)]
    obtain b st1 where r1: "hasCycle depth aph adj st y = Some (Inr (b, st1))"
      and p1: "dfsPost U E st {y} b st1" by (elim exE conjE)
    show ?thesis
    proof (cases b)
      case True
      with p1 have "cyclic E" by (simp add: dfsPost_def)
      then have A: "dfsPost U E st (set (y # rest)) True st1" by (rule dfsPost_True)
      from r1 True False
      have B: "forNeighbors depth aph adj st (y # rest) = Some (Inr (True, st1))" by simp
      show ?thesis using A B by (intro exI[of _ True] exI[of _ st1]) simp
    next
      case nb: False
      from p1 nb have p1f: "dfsPost U E st {y} False st1" by simp
      note q1 = dfsPost_FalseD[OF p1f]
      have y1: "y \<in> finished st1" using q1(4) by simp
      have c1: "card (U - visited st1) \<le> depth"
        by (rule card_unvisited_mono[OF finU q1(2) Cons.prems(5)])
      have x1: "x \<in> recursionStack st1" using Cons.prems(2) q1(1) by simp
      have path1: "\<forall>g\<in>recursionStack st1. (g, x) \<in> E\<^sup>*" using Cons.prems(4) q1(1) by simp
      from Cons.IH[OF q1(3) x1 rest path1 c1]
      obtain b2 st2 where r2: "forNeighbors depth aph adj st1 rest = Some (Inr (b2, st2))"
        and p2: "dfsPost U E st1 (set rest) b2 st2" by (elim exE conjE)
      have A: "dfsPost U E st (set (y # rest)) b2 st2"
      proof (cases b2)
        case True
        with p2 have "cyclic E" by (simp add: dfsPost_def)
        with True show ?thesis by (simp add: dfsPost_True)
      next
        case False
        from p2 False have p2f: "dfsPost U E st1 (set rest) False st2" by simp
        note q2 = dfsPost_FalseD[OF p2f]
        from y1 q2(1,2) have "y \<in> finished st2" unfolding finished_def by auto
        with q2(4) have d: "set (y # rest) \<subseteq> finished st2" by simp
        have s: "recursionStack st2 = recursionStack st" using q2(1) q1(1) by simp
        have v: "visited st \<subseteq> visited st2" using q1(2) q2(2) by (rule subset_trans)
        show ?thesis using dfsPost_FalseI[OF s v q2(3) d] False by simp
      qed
      from r1 r2 nb False
      have B: "forNeighbors depth aph adj st (y # rest) = Some (Inr (b2, st2))" by simp
      show ?thesis using A B by (intro exI[of _ b2] exI[of _ st2]) simp
    qed
  next
    case vis: True
    show ?thesis
    proof (cases "y \<in> recursionStack st")
      case True
      with Cons.prems(4) have "(y, x) \<in> E\<^sup>*" by simp
      then have "(y, y) \<in> E\<^sup>+" using xy by (rule rtrancl_into_trancl1)
      then have "cyclic E" unfolding cyclic_def by (rule exI)
      then have A: "dfsPost U E st (set (y # rest)) True st" by (rule dfsPost_True)
      from vis True
      have B: "forNeighbors depth aph adj st (y # rest) = Some (Inr (True, st))" by simp
      show ?thesis using A B by (intro exI[of _ True] exI[of _ st]) simp
    next
      case False
      from Cons.IH[OF Cons.prems(1,2) rest Cons.prems(4,5)]
      obtain b2 st2 where r2: "forNeighbors depth aph adj st rest = Some (Inr (b2, st2))"
        and p2: "dfsPost U E st (set rest) b2 st2" by (elim exE conjE)
      have A: "dfsPost U E st (set (y # rest)) b2 st2"
      proof (cases b2)
        case True
        with p2 have "cyclic E" by (simp add: dfsPost_def)
        with True show ?thesis by (simp add: dfsPost_True)
      next
        case nb2: False
        from p2 nb2 have p2f: "dfsPost U E st (set rest) False st2" by simp
        note q2 = dfsPost_FalseD[OF p2f]
        from vis False q2(1,2) have "y \<in> finished st2" unfolding finished_def by auto
        with q2(4) have d: "set (y # rest) \<subseteq> finished st2" by simp
        show ?thesis using dfsPost_FalseI[OF q2(1) q2(2) q2(3) d] nb2 by simp
      qed
      from r2 vis False
      have B: "forNeighbors depth aph adj st (y # rest) = Some (Inr (b2, st2))" by simp
      show ?thesis using A B by (intro exI[of _ b2] exI[of _ st2]) simp
    qed
  qed
qed

lemma hasCycleSpec_0: "graphView aph adj U E \<Longrightarrow> hasCycleSpec 0 aph adj U E"
proof -
  assume G: "graphView aph adj U E"
  then have finU: "finite U" by (simp add: graphView_def)
  have "False" if "x \<in> U" "x \<notin> visited st" "card (U - visited st) \<le> 0" for x and st :: dfs
  proof -
    from that finU have "finite (U - visited st)" "x \<in> U - visited st" "card (U - visited st) = 0"
      by auto
    then show False by auto
  qed
  then show ?thesis unfolding hasCycleSpec_def by blast
qed

lemma hasCycleSpec_Suc:
  assumes G: "graphView aph adj U E" and H: "hasCycleSpec depth aph adj U E"
  shows "hasCycleSpec (Suc depth) aph adj U E"
  unfolding hasCycleSpec_def
proof (intro allI impI)
  fix st x
  assume inv: "dfsInv U E st" and xU: "x \<in> U" and nv: "x \<notin> visited st"
    and path: "\<forall>g\<in>recursionStack st. (g, x) \<in> E\<^sup>*"
    and card: "card (U - visited st) \<le> Suc depth"
  from G have finU: "finite U" by (simp add: graphView_def)
  from G xU obtain xs where nb: "neighborsOf aph adj x = Inr xs" and xs: "set xs = E `` {x}"
    unfolding graphView_def by blast
  define st1 where "st1 = st\<lparr>visited := insert x (visited st),
                    recursionStack := insert x (recursionStack st)\<rparr>"
  from inv nv have ns: "x \<notin> recursionStack st" unfolding dfsInv_def by auto
  have f1: "finished st1 = finished st"
    using nv ns unfolding finished_def st1_def by auto
  have i1: "dfsInv U E st1"
    using inv xU unfolding dfsInv_def f1 by (auto simp: st1_def)
  have x1: "x \<in> recursionStack st1" by (simp add: st1_def)
  have p1: "\<forall>g\<in>recursionStack st1. (g, x) \<in> E\<^sup>*" using path by (simp add: st1_def)
  have "U - visited st1 = (U - visited st) - {x}" by (auto simp: st1_def)
  moreover have "x \<in> U - visited st" using xU nv by simp
  ultimately have c1: "card (U - visited st1) \<le> depth"
    using card finU by (simp add: card_Diff_singleton)
  from forNeighbors_spec[OF G H i1 x1 _ p1 c1, of xs] xs
  obtain b st2 where r2: "forNeighbors depth aph adj st1 xs = Some (Inr (b, st2))"
    and p2: "dfsPost U E st1 (set xs) b st2" by auto
  show "\<exists>b st'. hasCycle (Suc depth) aph adj st x = Some (Inr (b, st')) \<and> dfsPost U E st {x} b st'"
  proof (cases b)
    case True
    with p2 have "dfsPost U E st {x} True st2" by (simp add: dfsPost_def)
    moreover from r2 nb True
    have "hasCycle (Suc depth) aph adj st x = Some (Inr (True, st2))" by (simp add: st1_def)
    ultimately show ?thesis by blast
  next
    case False
    define st' where "st' = st2\<lparr>recursionStack := recursionStack st2 - {x}\<rparr>"
    from p2 False have s2: "recursionStack st2 = recursionStack st1"
      and v2: "visited st1 \<subseteq> visited st2" and i2: "dfsInv U E st2"
      and d2: "set xs \<subseteq> finished st2" by (simp_all add: dfsPost_def)
    have xv2: "x \<in> visited st2" using v2 by (auto simp: st1_def)
    have xnf: "x \<notin> finished st2" using s2 x1 by (simp add: finished_def)
    have f': "finished st' = insert x (finished st2)"
      using xv2 unfolding finished_def st'_def by auto
    have closed2: "E `` finished st2 \<subseteq> finished st2" using i2 by (simp add: dfsInv_def)
    have "(x, x) \<notin> E\<^sup>+"
    proof
      assume "(x, x) \<in> E\<^sup>+"
      then obtain z where xz: "(x, z) \<in> E" and zx: "(z, x) \<in> E\<^sup>*" by (meson tranclD)
      from xz xs d2 have "z \<in> finished st2" by auto
      with zx have "x \<in> E\<^sup>* `` finished st2" by blast
      with Image_closed_trancl[OF closed2] xnf show False by simp
    qed
    with i2 have acyc: "\<forall>u\<in>finished st'. (u, u) \<notin> E\<^sup>+" unfolding f' dfsInv_def by auto
    have closed': "E `` finished st' \<subseteq> finished st'"
      unfolding f' using closed2 d2 xs by auto
    have "dfsInv U E st'"
      unfolding dfsInv_def using acyc closed' i2
      by (auto simp: st'_def dfsInv_def)
    moreover have "recursionStack st' = recursionStack st"
      using s2 ns by (auto simp: st'_def st1_def)
    moreover have "visited st \<subseteq> visited st'" using v2 by (auto simp: st'_def st1_def)
    moreover have "{x} \<subseteq> finished st'" unfolding f' by simp
    ultimately have "dfsPost U E st {x} False st'" by (simp add: dfsPost_def)
    moreover have "hasCycle (Suc depth) aph adj st x = Some (Inr (False, st'))"
      using nb r2 False by (simp add: st1_def st'_def)
    ultimately show ?thesis using False by blast
  qed
qed

lemma hasCycleSpec_all: "graphView aph adj U E \<Longrightarrow> hasCycleSpec depth aph adj U E"
  by (induction depth) (simp_all add: hasCycleSpec_0 hasCycleSpec_Suc)

lemma nodeLoopPost_mono: "nodeLoopPost U E done b \<Longrightarrow> done' \<subseteq> done \<Longrightarrow> nodeLoopPost U E done' b"
  unfolding nodeLoopPost_def by (cases b) auto

lemma forNodeIds_spec:
  assumes G: "graphView aph adj U E"
  shows "dfsInv U E st \<Longrightarrow> recursionStack st = {} \<Longrightarrow> set ids \<subseteq> U \<Longrightarrow> card U \<le> depth
     \<Longrightarrow> \<exists>b. forNodeIds depth aph adj st ids = Some (Inr b)
            \<and> nodeLoopPost U E (visited st \<union> set ids) b"
proof (induction ids arbitrary: st)
  case Nil
  have "nodeLoopPost U E (visited st \<union> set []) False"
    unfolding nodeLoopPost_def using Nil.prems(1,2) by auto
  then show ?case by (intro exI[of _ False]) simp
next
  case (Cons y rest)
  from G have finU: "finite U" by (simp add: graphView_def)
  from Cons.prems(3) have yU: "y \<in> U" and restU: "set rest \<subseteq> U" by simp_all
  show ?case
  proof (cases "y \<in> visited st")
    case True
    from Cons.IH[OF Cons.prems(1,2) restU Cons.prems(4)]
    obtain b where r: "forNodeIds depth aph adj st rest = Some (Inr b)"
      and p: "nodeLoopPost U E (visited st \<union> set rest) b" by (elim exE conjE)
    from True have "visited st \<union> set (y # rest) \<subseteq> visited st \<union> set rest" by auto
    with p have A: "nodeLoopPost U E (visited st \<union> set (y # rest)) b"
      by (rule nodeLoopPost_mono)
    from r True have B: "forNodeIds depth aph adj st (y # rest) = Some (Inr b)" by simp
    show ?thesis using A B by (intro exI[of _ b]) simp
  next
    case False
    have c: "card (U - visited st) \<le> depth"
    proof -
      from finU have "card (U - visited st) \<le> card U" by (intro card_mono) auto
      with Cons.prems(4) show ?thesis by simp
    qed
    have path: "\<forall>g\<in>recursionStack st. (g, y) \<in> E\<^sup>*" using Cons.prems(2) by simp
    from hasCycleSpecD[OF hasCycleSpec_all[OF G] Cons.prems(1) yU False path c]
    obtain b st1 where r1: "hasCycle depth aph adj st y = Some (Inr (b, st1))"
      and p1: "dfsPost U E st {y} b st1" by (elim exE conjE)
    show ?thesis
    proof (cases b)
      case True
      with p1 have "cyclic E" by (simp add: dfsPost_def)
      then have A: "nodeLoopPost U E (visited st \<union> set (y # rest)) True"
        by (simp add: nodeLoopPost_def)
      from r1 True False
      have B: "forNodeIds depth aph adj st (y # rest) = Some (Inr True)" by simp
      show ?thesis using A B by (intro exI[of _ True]) simp
    next
      case nb: False
      from p1 nb have p1f: "dfsPost U E st {y} False st1" by simp
      note q1 = dfsPost_FalseD[OF p1f]
      have s1: "recursionStack st1 = {}" using q1(1) Cons.prems(2) by simp
      have y1: "y \<in> visited st1" using q1(4) by (simp add: finished_def)
      from Cons.IH[OF q1(3) s1 restU Cons.prems(4)]
      obtain b2 where r2: "forNodeIds depth aph adj st1 rest = Some (Inr b2)"
        and p2: "nodeLoopPost U E (visited st1 \<union> set rest) b2" by (elim exE conjE)
      from q1(2) y1 have "visited st \<union> set (y # rest) \<subseteq> visited st1 \<union> set rest" by auto
      with p2 have A: "nodeLoopPost U E (visited st \<union> set (y # rest)) b2"
        by (rule nodeLoopPost_mono)
      from r1 r2 nb False
      have B: "forNodeIds depth aph adj st (y # rest) = Some (Inr b2)" by simp
      show ?thesis using A B by (intro exI[of _ b2]) simp
    qed
  qed
qed

lemma forNodeIds_decides:
  assumes G: "graphView aph adj U E" and ids: "set ids \<subseteq> U" and dom: "Domain E \<subseteq> set ids"
    and depth: "card U \<le> depth"
  shows "forNodeIds depth aph adj \<lparr>visited = {}, recursionStack = {}\<rparr> ids = Some (Inr (cyclic E))"
proof -
  have i0: "dfsInv U E \<lparr>visited = {}, recursionStack = {}\<rparr>"
    by (simp add: dfsInv_def finished_def)
  have s0: "recursionStack \<lparr>visited = {}, recursionStack = {}\<rparr> = {}" by simp
  from forNodeIds_spec[OF G i0 s0 ids depth]
  obtain b where r: "forNodeIds depth aph adj \<lparr>visited = {}, recursionStack = {}\<rparr> ids = Some (Inr b)"
    and p0: "nodeLoopPost U E (visited \<lparr>visited = {}, recursionStack = {}\<rparr> \<union> set ids) b"
    by (elim exE conjE)
  from p0 have p: "nodeLoopPost U E (set ids) b" by simp
  have "b = cyclic E"
  proof (cases b)
    case True
    with p show ?thesis by (simp add: nodeLoopPost_def)
  next
    case False
    with p obtain st' where i: "dfsInv U E st'" and s: "recursionStack st' = {}"
      and v: "set ids \<subseteq> visited st'" by (auto simp: nodeLoopPost_def)
    have "\<not> cyclic E"
    proof
      assume "cyclic E"
      then obtain v where vv: "(v, v) \<in> E\<^sup>+" unfolding cyclic_def by (elim exE)
      then have "v \<in> Domain E" by (meson Domain.DomainI tranclD)
      with dom v s have "v \<in> finished st'" by (auto simp: finished_def)
      with i vv show False by (auto simp: dfsInv_def)
    qed
    with False show ?thesis by simp
  qed
  with r show ?thesis by simp
qed

subsection \<open>The adjacency object when no key is inherited\<close>

lemma foldl_setEmptyArray:
  assumes "lit ''__proto__'' \<notin> set ids"
  shows "protoArray (foldl setEmptyArray obj ids) = protoArray obj"
    and "ownProps (foldl setEmptyArray obj ids) k = (if k \<in> set ids then Some [] else ownProps obj k)"
  using assms
  by (induction ids arbitrary: obj) (auto simp: setEmptyArray_def)

lemma getProp_own: "ownProps obj k = Some xs \<Longrightarrow> getProp aph obj k = JArray xs"
  by (simp add: getProp_def)

lemma getProp_plain:
  "ownProps obj k = None \<Longrightarrow> protoArray obj = None \<Longrightarrow> k \<notin> set inheritedKeys
   \<Longrightarrow> getProp aph obj k = JUndefined"
  by (simp add: getProp_def inheritedKeys_def)

lemma pushTarget_own:
  "ownProps obj (source edge) = Some xs \<Longrightarrow>
   pushTarget aph obj edge = Inr (obj\<lparr>ownProps := (ownProps obj)(source edge \<mapsto> xs @ [target edge])\<rparr>)"
  by (simp add: pushTarget_def getProp_own)

lemma pushTarget_plain:
  "ownProps obj (source edge) = None \<Longrightarrow> protoArray obj = None
   \<Longrightarrow> source edge \<notin> set inheritedKeys \<Longrightarrow> pushTarget aph obj edge = Inr obj"
  by (simp add: pushTarget_def getProp_plain)

lemma forEachEdge_plain:
  assumes "protoArray obj = None"
    and "\<forall>edge\<in>set edges. ownProps obj (source edge) = None \<longrightarrow> source edge \<notin> set inheritedKeys"
  shows "\<exists>obj'. forEachEdge aph obj edges = Inr obj' \<and> protoArray obj' = None
           \<and> (\<forall>k. ownProps obj' k = map_option (\<lambda>xs. xs @ targetsFrom edges k) (ownProps obj k))"
  using assms
proof (induction edges arbitrary: obj)
  case Nil
  then show ?case by (simp add: targetsFrom_def option.map_ident)
next
  case (Cons e rest)
  show ?case
  proof (cases "ownProps obj (source e)")
    case None
    with Cons.prems have p: "pushTarget aph obj e = Inr obj"
      by (simp add: pushTarget_plain)
    from Cons.IH[of obj] Cons.prems
    obtain obj' where r: "forEachEdge aph obj rest = Inr obj'" and pa: "protoArray obj' = None"
      and o: "\<forall>k. ownProps obj' k = map_option (\<lambda>xs. xs @ targetsFrom rest k) (ownProps obj k)"
      by auto
    have "\<forall>k. ownProps obj' k = map_option (\<lambda>xs. xs @ targetsFrom (e # rest) k) (ownProps obj k)"
    proof
      fix k
      show "ownProps obj' k = map_option (\<lambda>xs. xs @ targetsFrom (e # rest) k) (ownProps obj k)"
        using o None by (cases "k = source e") (simp_all add: targetsFrom_def)
    qed
    with p r pa show ?thesis by simp
  next
    case (Some xs)
    define obj1 where "obj1 = obj\<lparr>ownProps := (ownProps obj)(source e \<mapsto> xs @ [target e])\<rparr>"
    from Some have p: "pushTarget aph obj e = Inr obj1"
      by (simp add: pushTarget_own obj1_def)
    have pa1: "protoArray obj1 = None" using Cons.prems(1) by (simp add: obj1_def)
    have pre1: "\<forall>edge\<in>set rest. ownProps obj1 (source edge) = None \<longrightarrow> source edge \<notin> set inheritedKeys"
      using Cons.prems(2) by (auto simp: obj1_def)
    from Cons.IH[OF pa1 pre1]
    obtain obj' where r: "forEachEdge aph obj1 rest = Inr obj'" and pa: "protoArray obj' = None"
      and o: "\<forall>k. ownProps obj' k = map_option (\<lambda>xs. xs @ targetsFrom rest k) (ownProps obj1 k)"
      by auto
    have "\<forall>k. ownProps obj' k = map_option (\<lambda>xs. xs @ targetsFrom (e # rest) k) (ownProps obj k)"
    proof
      fix k
      show "ownProps obj' k = map_option (\<lambda>xs. xs @ targetsFrom (e # rest) k) (ownProps obj k)"
        using o Some by (cases "k = source e") (simp_all add: targetsFrom_def obj1_def)
    qed
    with p r pa show ?thesis by simp
  qed
qed

lemma build_plain:
  assumes "plainKeys nodes edges"
  shows "\<exists>adj. forEachEdge aph (foldl setEmptyArray emptyObject (map id' nodes)) edges = Inr adj
           \<and> protoArray adj = None
           \<and> (\<forall>k. ownProps adj k = (if k \<in> id' ` set nodes then Some (targetsFrom edges k) else None))"
proof -
  let ?ids = "map id' nodes"
  let ?obj = "foldl setEmptyArray emptyObject ?ids"
  have sids: "set ?ids = id' ` set nodes" by simp
  from assms have np: "lit ''__proto__'' \<notin> set ?ids" by (simp add: plainKeys_def)
  note init = foldl_setEmptyArray[OF np, of emptyObject]
  have pa0: "protoArray ?obj = None" using init(1) by (simp add: emptyObject_def)
  have own0: "ownProps ?obj k = (if k \<in> id' ` set nodes then Some [] else None)" for k
    using init(2)[of k] by (simp add: emptyObject_def)
  have pre: "\<forall>edge\<in>set edges. ownProps ?obj (source edge) = None \<longrightarrow> source edge \<notin> set inheritedKeys"
    using assms unfolding plainKeys_def own0 by auto
  from forEachEdge_plain[OF pa0 pre, of aph]
  obtain adj where r: "forEachEdge aph ?obj edges = Inr adj" and pa: "protoArray adj = None"
    and o: "\<forall>k. ownProps adj k = map_option (\<lambda>xs. xs @ targetsFrom edges k) (ownProps ?obj k)"
    by auto
  have "\<forall>k. ownProps adj k = (if k \<in> id' ` set nodes then Some (targetsFrom edges k) else None)"
    using o own0 by simp
  with r pa show ?thesis by blast
qed

lemma set_targetsFrom: "set (targetsFrom edges k) = {target edge | edge. edge \<in> set edges \<and> source edge = k}"
  by (auto simp: targetsFrom_def)

lemma outArcs_Image:
  "outArcs I edges `` {k} = (if k \<in> I then set (targetsFrom edges k) else {})"
  unfolding outArcs_def set_targetsFrom by auto

lemma restricted_outArcs:
  "{(source edge, target edge) | edge. edge \<in> set edges \<and> source edge \<in> I \<and> target edge \<in> I}
     = outArcs I edges \<inter> UNIV \<times> I"
  unfolding outArcs_def by auto

lemma graphView_plain:
  assumes P: "plainKeys nodes edges"
    and pa: "protoArray adj = None"
    and own: "\<forall>k. ownProps adj k = (if k \<in> id' ` set nodes then Some (targetsFrom edges k) else None)"
  shows "graphView aph adj (id' ` set nodes \<union> target ` set edges)
           (outArcs (id' ` set nodes) edges)"
  unfolding graphView_def
proof (intro conjI ballI)
  let ?ids = "id' ` set nodes"
  show "finite (?ids \<union> target ` set edges)" by simp
  show "outArcs ?ids edges \<subseteq> (?ids \<union> target ` set edges) \<times> (?ids \<union> target ` set edges)"
    by (auto simp: outArcs_def)
  fix k assume k: "k \<in> ?ids \<union> target ` set edges"
  show "\<exists>xs. neighborsOf aph adj k = Inr xs \<and> set xs = outArcs ?ids edges `` {k}"
  proof (cases "k \<in> ?ids")
    case True
    with own have "ownProps adj k = Some (targetsFrom edges k)" by simp
    then have "neighborsOf aph adj k = Inr (targetsFrom edges k)"
      by (simp add: neighborsOf_def getProp_own)
    moreover have "set (targetsFrom edges k) = outArcs ?ids edges `` {k}"
      using True by (simp only: outArcs_Image if_True)
    ultimately show ?thesis by blast
  next
    case False
    with k obtain e where e: "e \<in> set edges" "target e = k" by auto
    with P False have nk: "k \<notin> set inheritedKeys" unfolding plainKeys_def by auto
    from own False have "ownProps adj k = None" by simp
    with pa nk have "getProp aph adj k = JUndefined" by (simp add: getProp_plain)
    then have "neighborsOf aph adj k = Inr []" by (simp add: neighborsOf_def)
    moreover have "outArcs ?ids edges `` {k} = {}" using False by (simp only: outArcs_Image if_False)
    ultimately show ?thesis by simp
  qed
qed

lemma card_keys_le: "card (id' ` set nodes \<union> target ` set edges) \<le> callDepth nodes edges"
proof -
  have "card (id' ` set nodes \<union> target ` set edges)
          \<le> card (id' ` set nodes) + card (target ` set edges)"
    by (rule card_Un_le)
  also have "\<dots> \<le> length nodes + length edges"
  proof (rule add_mono)
    have "card (id' ` set nodes) \<le> card (set nodes)" by (rule card_image_le) simp
    also have "\<dots> \<le> length nodes" by (rule card_length)
    finally show "card (id' ` set nodes) \<le> length nodes" .
    have "card (target ` set edges) \<le> card (set edges)" by (rule card_image_le) simp
    also have "\<dots> \<le> length edges" by (rule card_length)
    finally show "card (target ` set edges) \<le> length edges" .
  qed
  finally show ?thesis by (simp add: callDepth_def)
qed

lemma trancl_into_restricted:
  assumes "(a, b) \<in> E\<^sup>+" and "b \<in> I" and "Domain E \<subseteq> I"
  shows "(a, b) \<in> (E \<inter> UNIV \<times> I)\<^sup>+"
  using assms(1,2)
proof (induction rule: trancl_induct)
  case (base y)
  then show ?case by auto
next
  case (step y z)
  from step.hyps(2) assms(3) have "y \<in> I" by auto
  with step.IH have "(a, y) \<in> (E \<inter> UNIV \<times> I)\<^sup>+" by simp
  moreover from step.hyps(2) step.prems have "(y, z) \<in> E \<inter> UNIV \<times> I" by simp
  ultimately show ?case by (rule trancl.trancl_into_trancl)
qed

lemma flowArcs_outArcs:
  "flowArcs nodes edges = outArcs (id' ` set nodes) edges \<inter> UNIV \<times> id' ` set nodes"
  unfolding flowArcs_def by (rule restricted_outArcs)

lemma cyclic_outArcs:
  "cyclic (outArcs (id' ` set nodes) edges) = hasDirectedCycle nodes edges"
proof
  let ?I = "id' ` set nodes"
  let ?E = "outArcs ?I edges"
  have dom: "Domain ?E \<subseteq> ?I" by (auto simp: outArcs_def)
  assume "cyclic ?E"
  then obtain v where vv: "(v, v) \<in> ?E\<^sup>+" unfolding cyclic_def by (elim exE)
  then have "v \<in> Domain ?E" by (meson Domain.DomainI tranclD)
  with dom have vI: "v \<in> ?I" by auto
  from trancl_into_restricted[OF vv vI dom] have "(v, v) \<in> (flowArcs nodes edges)\<^sup>+"
    by (simp add: flowArcs_outArcs)
  with vI show "hasDirectedCycle nodes edges" unfolding hasDirectedCycle_def by blast
next
  assume "hasDirectedCycle nodes edges"
  then obtain v where "(v, v) \<in> (flowArcs nodes edges)\<^sup>+"
    unfolding hasDirectedCycle_def by blast
  moreover have "flowArcs nodes edges \<subseteq> outArcs (id' ` set nodes) edges"
    by (simp add: flowArcs_outArcs)
  ultimately have "(v, v) \<in> (outArcs (id' ` set nodes) edges)\<^sup>+"
    by (meson trancl_mono)
  then show "cyclic (outArcs (id' ` set nodes) edges)" unfolding cyclic_def by (rule exI)
qed

lemma plainKeys_knownEdges: "plainKeys nodes edges \<Longrightarrow> plainKeys nodes (knownEdges nodes edges)"
  unfolding plainKeys_def knownEdges_def by auto

lemma flowArcs_knownEdges: "flowArcs nodes (knownEdges nodes edges) = flowArcs nodes edges"
  unfolding flowArcs_def knownEdges_def by auto

lemma hasDirectedCycle_knownEdges:
  "hasDirectedCycle nodes (knownEdges nodes edges) = hasDirectedCycle nodes edges"
  unfolding hasDirectedCycle_def flowArcs_knownEdges ..

subsection \<open>The depth bound\<close>

lemma arraysWithin_empty: "arraysWithin T emptyObject"
  by (simp add: arraysWithin_def emptyObject_def)

lemma arraysWithin_setEmptyArray: "arraysWithin T obj \<Longrightarrow> arraysWithin T (setEmptyArray obj k)"
  by (auto simp: arraysWithin_def setEmptyArray_def)

lemma arraysWithin_foldl: "arraysWithin T obj \<Longrightarrow> arraysWithin T (foldl setEmptyArray obj ks)"
  by (induction ks arbitrary: obj) (simp_all add: arraysWithin_setEmptyArray)

lemma getProp_JArray_proto:
  "ownProps obj k = None \<Longrightarrow> getProp aph obj k = JArray p \<Longrightarrow> protoArray obj = Some p"
  by (auto simp: getProp_def split: option.splits if_splits)

lemma arraysWithin_pushTarget:
  assumes "arraysWithin T obj" "target edge \<in> T" "pushTarget aph obj edge = Inr obj'"
  shows "arraysWithin T obj'"
proof (cases "truthy (getProp aph obj (source edge))")
  case False
  with assms show ?thesis by (simp add: pushTarget_def)
next
  case True
  show ?thesis
  proof (cases "ownProps obj (source edge)")
    case (Some xs)
    with True assms(3) have "obj' = obj\<lparr>ownProps := (ownProps obj)(source edge \<mapsto> xs @ [target edge])\<rparr>"
      by (simp add: pushTarget_def)
    with assms(1,2) Some show ?thesis by (auto simp: arraysWithin_def)
  next
    case None
    with True assms(3) obtain p where g: "getProp aph obj (source edge) = JArray p"
      and o: "obj' = obj\<lparr>protoArray := Some (p @ [target edge])\<rparr>"
      by (auto simp: pushTarget_def split: jsvalue.splits)
    from getProp_JArray_proto[OF None g] have "protoArray obj = Some p" .
    with assms(1,2) o show ?thesis by (auto simp: arraysWithin_def)
  qed
qed

lemma arraysWithin_forEachEdge:
  "arraysWithin T obj \<Longrightarrow> target ` set edges \<subseteq> T \<Longrightarrow> forEachEdge aph obj edges = Inr obj'
   \<Longrightarrow> arraysWithin T obj'"
proof (induction edges arbitrary: obj)
  case Nil
  then show ?case by simp
next
  case (Cons e rest)
  from Cons.prems(3) obtain obj1 where p: "pushTarget aph obj e = Inr obj1"
    and r: "forEachEdge aph obj1 rest = Inr obj'"
    by (auto split: sum.splits)
  from Cons.prems(1,2) p have "arraysWithin T obj1"
    by (auto intro: arraysWithin_pushTarget)
  with Cons.IH[of obj1] Cons.prems(2) r show ?case by simp
qed

lemma neighborsOf_within:
  assumes "arraysWithin T adj" "neighborsOf aph adj k = Inr xs"
  shows "set xs \<subseteq> T \<union> codePointsOf T"
proof (cases "ownProps adj k")
  case (Some ys)
  with assms show ?thesis by (auto simp: neighborsOf_def getProp_def arraysWithin_def)
next
  case None
  show ?thesis
  proof (cases "protoArray adj")
    case pn: None
    with None assms(2) show ?thesis
      by (auto simp: neighborsOf_def getProp_def split: if_splits)
  next
    case (Some p)
    with assms(1) have pT: "set p \<subseteq> T" by (simp add: arraysWithin_def)
    have idx: "set (codePoints (p ! i)) \<subseteq> codePointsOf T" if "i < length p" for i
      using that pT unfolding codePointsOf_def by (meson UN_upper nth_mem subsetD)
    from None Some assms(2) pT idx show ?thesis
      by (auto simp: neighborsOf_def getProp_def split: if_splits)
  qed
qed

lemma growsOnFalse_simps:
  "growsOnFalse st (Inl e)" "growsOnFalse st (Inr (True, st'))"
  "growsOnFalse st (Inr (False, st')) = (visited st \<subseteq> visited st')"
  by (simp_all add: growsOnFalse_def)

lemma returnsSpecD:
  assumes "returnsSpec depth aph adj U" "x \<in> U" "x \<notin> visited st" "card (U - visited st) \<le> depth"
  shows "\<exists>r. hasCycle depth aph adj st x = Some r \<and> growsOnFalse st r"
  using assms(1)[unfolded returnsSpec_def, rule_format, of x st] assms(2-4) by simp

lemma forNeighbors_returns:
  assumes C: "keysClosed aph adj U" and H: "returnsSpec depth aph adj U"
  shows "set xs \<subseteq> U \<Longrightarrow> card (U - visited st) \<le> depth
     \<Longrightarrow> \<exists>r. forNeighbors depth aph adj st xs = Some r \<and> growsOnFalse st r"
proof (induction xs arbitrary: st)
  case Nil
  then show ?case by (simp add: growsOnFalse_simps)
next
  case (Cons y rest)
  from C have finU: "finite U" by (simp add: keysClosed_def)
  from Cons.prems(1) have yU: "y \<in> U" and restU: "set rest \<subseteq> U" by simp_all
  show ?case
  proof (cases "y \<in> visited st")
    case False
    from returnsSpecD[OF H yU False Cons.prems(2)]
    obtain r1 where r1: "hasCycle depth aph adj st y = Some r1" and g1: "growsOnFalse st r1"
      by (elim exE conjE)
    show ?thesis
    proof (cases r1)
      case (Inl e)
      with r1 False show ?thesis by (simp add: growsOnFalse_simps)
    next
      case (Inr bs)
      obtain b st1 where bs: "bs = (b, st1)" by (cases bs)
      show ?thesis
      proof (cases b)
        case True
        with r1 Inr bs False show ?thesis by (simp add: growsOnFalse_simps)
      next
        case nb: False
        with g1 Inr bs have v1: "visited st \<subseteq> visited st1" by (simp add: growsOnFalse_simps)
        have c1: "card (U - visited st1) \<le> depth"
          by (rule card_unvisited_mono[OF finU v1 Cons.prems(2)])
        from Cons.IH[OF restU c1]
        obtain r2 where r2: "forNeighbors depth aph adj st1 rest = Some r2"
          and g2: "growsOnFalse st1 r2" by (elim exE conjE)
        from g2 v1 have "growsOnFalse st r2" unfolding growsOnFalse_def by blast
        moreover from r1 Inr bs nb False r2
        have "forNeighbors depth aph adj st (y # rest) = Some r2" by simp
        ultimately show ?thesis by simp
      qed
    qed
  next
    case vis: True
    show ?thesis
    proof (cases "y \<in> recursionStack st")
      case True
      with vis show ?thesis by (simp add: growsOnFalse_simps)
    next
      case False
      from Cons.IH[OF restU Cons.prems(2)] vis False show ?thesis by simp
    qed
  qed
qed

lemma returnsSpec_0: "keysClosed aph adj U \<Longrightarrow> returnsSpec 0 aph adj U"
proof -
  assume "keysClosed aph adj U"
  then have finU: "finite U" by (simp add: keysClosed_def)
  have "False" if "x \<in> U" "x \<notin> visited st" "card (U - visited st) \<le> 0" for x and st :: dfs
  proof -
    from that finU have "finite (U - visited st)" "x \<in> U - visited st" "card (U - visited st) = 0"
      by auto
    then show False by auto
  qed
  then show ?thesis unfolding returnsSpec_def by blast
qed

lemma returnsSpec_Suc:
  assumes C: "keysClosed aph adj U" and H: "returnsSpec depth aph adj U"
  shows "returnsSpec (Suc depth) aph adj U"
  unfolding returnsSpec_def
proof (intro allI impI)
  fix st :: dfs and x
  assume xU: "x \<in> U" and nv: "x \<notin> visited st" and card: "card (U - visited st) \<le> Suc depth"
  from C have finU: "finite U" by (simp add: keysClosed_def)
  define st1 where "st1 = st\<lparr>visited := insert x (visited st),
                    recursionStack := insert x (recursionStack st)\<rparr>"
  have "U - visited st1 = (U - visited st) - {x}" by (auto simp: st1_def)
  moreover have "x \<in> U - visited st" using xU nv by simp
  ultimately have c1: "card (U - visited st1) \<le> depth"
    using card finU by (simp add: card_Diff_singleton)
  have v1: "visited st \<subseteq> visited st1" by (auto simp: st1_def)
  show "\<exists>r. hasCycle (Suc depth) aph adj st x = Some r \<and> growsOnFalse st r"
  proof (cases "neighborsOf aph adj x")
    case (Inl e)
    then show ?thesis by (simp add: growsOnFalse_simps)
  next
    case (Inr xs)
    with C xU have "set xs \<subseteq> U" unfolding keysClosed_def by blast
    from forNeighbors_returns[OF C H this c1]
    obtain r where r: "forNeighbors depth aph adj st1 xs = Some r" and g: "growsOnFalse st1 r"
      by (elim exE conjE)
    show ?thesis
    proof (cases r)
      case (Inl e)
      with r Inr show ?thesis by (simp add: growsOnFalse_simps st1_def)
    next
      case rr: (Inr bs)
      obtain b st2 where bs: "bs = (b, st2)" by (cases bs)
      show ?thesis
      proof (cases b)
        case True
        with r Inr rr bs show ?thesis by (simp add: growsOnFalse_simps st1_def)
      next
        case False
        with g rr bs have "visited st1 \<subseteq> visited st2" by (simp add: growsOnFalse_simps)
        with v1 have "visited st \<subseteq> visited st2" by (rule subset_trans)
        with r Inr rr bs False show ?thesis by (simp add: growsOnFalse_simps st1_def)
      qed
    qed
  qed
qed

lemma returnsSpec_all: "keysClosed aph adj U \<Longrightarrow> returnsSpec depth aph adj U"
  by (induction depth) (simp_all add: returnsSpec_0 returnsSpec_Suc)

lemma forNodeIds_returns:
  assumes C: "keysClosed aph adj U"
  shows "set ids \<subseteq> U \<Longrightarrow> card U \<le> depth \<Longrightarrow> \<exists>r. forNodeIds depth aph adj st ids = Some r"
proof (induction ids arbitrary: st)
  case Nil
  then show ?case by simp
next
  case (Cons y rest)
  from C have finU: "finite U" by (simp add: keysClosed_def)
  from Cons.prems(1) have yU: "y \<in> U" and restU: "set rest \<subseteq> U" by simp_all
  show ?case
  proof (cases "y \<in> visited st")
    case True
    with Cons.IH[OF restU Cons.prems(2), of st] show ?thesis by simp
  next
    case False
    have c: "card (U - visited st) \<le> depth"
    proof -
      from finU have "card (U - visited st) \<le> card U" by (intro card_mono) auto
      with Cons.prems(2) show ?thesis by simp
    qed
    from returnsSpecD[OF returnsSpec_all[OF C] yU False c]
    obtain r1 where r1: "hasCycle depth aph adj st y = Some r1" by (elim exE conjE)
    show ?thesis
    proof (cases r1)
      case (Inl e)
      with r1 False show ?thesis by simp
    next
      case (Inr bs)
      obtain b st1 where bs: "bs = (b, st1)" by (cases bs)
      from Cons.IH[OF restU Cons.prems(2), of st1] r1 Inr bs False
      show ?thesis by (cases b) simp_all
    qed
  qed
qed

lemma length_codePoints: "length (codePoints s) \<le> length s"
  by (induction s rule: codePoints.induct) auto

lemma card_codePointsOf:
  "card (codePointsOf (target ` set edges)) \<le> sum_list (map (\<lambda>edge. length (target edge)) edges)"
proof (induction edges)
  case Nil
  then show ?case by (simp add: codePointsOf_def)
next
  case (Cons e rest)
  have "codePointsOf (target ` set (e # rest))
          = set (codePoints (target e)) \<union> codePointsOf (target ` set rest)"
    by (simp add: codePointsOf_def)
  then have "card (codePointsOf (target ` set (e # rest)))
          \<le> card (set (codePoints (target e))) + card (codePointsOf (target ` set rest))"
    by (simp add: card_Un_le)
  moreover have "card (set (codePoints (target e))) \<le> length (target e)"
    using card_length[of "codePoints (target e)"] length_codePoints[of "target e"] by simp
  ultimately show ?case using Cons.IH by simp
qed

lemma finite_codePointsOf: "finite T \<Longrightarrow> finite (codePointsOf T)"
  by (simp add: codePointsOf_def)

subsection \<open>Graphs without edges\<close>

lemma hasKey_setEmptyArray: "hasKey (setEmptyArray obj k) k"
  by (simp add: hasKey_def setEmptyArray_def)

lemma hasKey_setEmptyArray_other: "hasKey obj k \<Longrightarrow> hasKey (setEmptyArray obj j) k"
  by (auto simp: hasKey_def setEmptyArray_def)

lemma hasKey_foldl:
  "k \<in> set ks \<or> hasKey obj k \<Longrightarrow> hasKey (foldl setEmptyArray obj ks) k"
proof (induction ks arbitrary: obj)
  case Nil
  then show ?case by simp
next
  case (Cons j ks)
  from Cons.prems have "k \<in> set ks \<or> hasKey (setEmptyArray obj j) k"
    by (auto simp: hasKey_setEmptyArray hasKey_setEmptyArray_other)
  from Cons.IH[OF this] show ?case by simp
qed

lemma neighborsOf_empty_arrays:
  assumes "arraysWithin {} obj" "hasKey obj k"
  shows "neighborsOf aph obj k = Inr []"
proof (cases "ownProps obj k")
  case (Some xs)
  with assms(1) have "xs = []" by (auto simp: arraysWithin_def)
  with Some show ?thesis by (simp add: neighborsOf_def getProp_def)
next
  case None
  with assms(2) obtain p where k: "k = lit ''__proto__''" and p: "protoArray obj = Some p"
    by (auto simp: hasKey_def)
  with assms(1) have "p = []" by (auto simp: arraysWithin_def)
  with None k p show ?thesis by (simp add: neighborsOf_def getProp_def)
qed

lemmas hasFlowCycles_eval = hasFlowCycles_def callDepth_def emptyObject_def setEmptyArray_def
  pushTarget_def getProp_def neighborsOf_def objectPrototypeMethods_def textNode_def
  plainEdge_def lit_def Let_def

section \<open>Properties of the flow validator and the connection policy\<close>

text \<open>
  Claim C1. The validity flag of the result of \<^verbatim>\<open>validateFlow\<close> is true exactly when its
  error list is empty. With at most one node nothing is checked and the list is empty;
  otherwise the list consists of the diagnostics whose condition holds, each condition
  decided on its own (more than one node without incoming edge, at least one node with
  empty text, more than one isolated node), in the order starting points, empty text,
  isolated nodes.
\<close>

theorem validateFlow_result:
  "isValid (validateFlow nodes edges) = (errors (validateFlow nodes edges) = [])
   \<and> errors (validateFlow nodes edges) =
       (if length nodes \<le> 1 then []
        else map snd (filter fst
          [(1 < sourcelessCount nodes edges, startingPointError (sourcelessCount nodes edges)),
           (0 < emptyTextCount nodes, emptyTextError (emptyTextCount nodes)),
           (1 < isolatedCount nodes edges, isolatedNodesError (isolatedCount nodes edges))]))"
proof (cases "length nodes \<le> 1")
  case True
  then show ?thesis by (simp add: validateFlow_def)
next
  case False
  then have "1 < length nodes" by simp
  from validateFlow_errors[OF this, of edges] False show ?thesis
    by (simp add: validateFlow_isValid)
qed

theorem validateFlow_result_witness:
  "isValid (validateFlow [textNode ''A'' (Some (lit ''hi'')), textNode ''B'' (Some (lit ''hi''))] []) = False
   \<and> errors (validateFlow [textNode ''A'' (Some (lit ''hi'')), textNode ''B'' (Some (lit ''hi''))] [])
       = [startingPointError 2, isolatedNodesError 2]"
  using validateFlow_result[of "[textNode ''A'' (Some (lit ''hi'')), textNode ''B'' (Some (lit ''hi''))]" "[]"]
  by (simp add: example_counts)

text \<open>
  Claim C2. With more than one node, the list of errors contains a starting-point error
  exactly when more than one node has no incoming edge, and the count the error states is
  the number of such nodes; with no such node or exactly one there is no starting-point
  error, whatever count it would state.
\<close>

theorem validateFlow_starting_points:
  "1 < length nodes \<Longrightarrow>
   (startingPointError k \<in> set (errors (validateFlow nodes edges)))
     = (k = sourcelessCount nodes edges \<and> 1 < sourcelessCount nodes edges)"
  by (rule start_mem)

theorem validateFlow_starting_points_witness:
  "1 < length [textNode ''A'' (Some (lit ''hi'')), textNode ''B'' (Some (lit ''hi''))]
   \<and> startingPointError 2
       \<in> set (errors (validateFlow [textNode ''A'' (Some (lit ''hi'')), textNode ''B'' (Some (lit ''hi''))] []))"
  using validateFlow_starting_points[of "[textNode ''A'' (Some (lit ''hi'')), textNode ''B'' (Some (lit ''hi''))]" 2 "[]"]
  by (simp add: example_counts)

text \<open>
  Claim C3. With no node or a single node, \<^verbatim>\<open>validateFlow\<close> answers valid with no
  errors, whatever the edges are.
\<close>

theorem validateFlow_small:
  "length nodes \<le> 1 \<Longrightarrow> validateFlow nodes edges = \<lparr>isValid = True, errors = []\<rparr>"
  by (simp add: validateFlow_def)

theorem validateFlow_small_witness:
  "length [textNode ''A'' None] \<le> 1
   \<and> validateFlow [textNode ''A'' None] [plainEdge ''A'' ''A'', plainEdge ''X'' ''Y'']
       = \<lparr>isValid = True, errors = []\<rparr>"
  using validateFlow_small[of "[textNode ''A'' None]" "[plainEdge ''A'' ''A'', plainEdge ''X'' ''Y'']"]
  by simp

text \<open>
  Claim C4. With more than one node, the list of errors contains an empty-text error
  exactly when at least one node has an absent text or a text that is empty once trimmed,
  and the error states the number of such nodes. For two nodes, the first with text
  \<^verbatim>\<open>hi\<close> and the second with the empty text, and the single edge from the first to the
  second, the result is invalid with the empty-text error for one node as its only error.
\<close>

theorem validateFlow_empty_text:
  "(1 < length nodes \<longrightarrow>
      (emptyTextError k \<in> set (errors (validateFlow nodes edges)))
        = (k = emptyTextCount nodes \<and> 0 < emptyTextCount nodes))
   \<and> (text' (data a) = Some (lit ''hi'') \<and> text' (data b) = Some []
        \<and> source e = id' a \<and> target e = id' b \<longrightarrow>
      validateFlow [a, b] [e] = \<lparr>isValid = False, errors = [emptyTextError 1]\<rparr>)
   \<and> emptyTextError 1 =
       lit ''1 node(s) have empty message text. Please add text to all message nodes before saving.''"
proof (intro conjI impI)
  assume "1 < length nodes"
  then show "(emptyTextError k \<in> set (errors (validateFlow nodes edges)))
        = (k = emptyTextCount nodes \<and> 0 < emptyTextCount nodes)"
    by (rule empty_mem)
next
  assume h: "text' (data a) = Some (lit ''hi'') \<and> text' (data b) = Some []
        \<and> source e = id' a \<and> target e = id' b"
  have len: "1 < length [a, b]" by simp
  have c: "sourcelessCount [a, b] [e] \<le> 1" "emptyTextCount [a, b] = 1" "isolatedCount [a, b] [e] = 0"
    using h scenario_counts[of a b e] by simp_all
  have e: "errors (validateFlow [a, b] [e]) = [emptyTextError 1]"
    unfolding validateFlow_errors[OF len] using c by simp
  moreover have "isValid (validateFlow [a, b] [e]) = False"
    unfolding validateFlow_isValid e by simp
  ultimately show "validateFlow [a, b] [e] = \<lparr>isValid = False, errors = [emptyTextError 1]\<rparr>"
    by (cases "validateFlow [a, b] [e]") simp
next
  show "emptyTextError 1 =
       lit ''1 node(s) have empty message text. Please add text to all message nodes before saving.''"
    by (rule emptyTextError_1)
qed

theorem validateFlow_empty_text_witness:
  "1 < length [textNode ''A'' (Some (lit ''hi'')), textNode ''B'' (Some [])]
   \<and> emptyTextError 1
       \<in> set (errors (validateFlow [textNode ''A'' (Some (lit ''hi'')), textNode ''B'' (Some [])]
                                   [plainEdge ''A'' ''B'']))
   \<and> validateFlow [textNode ''A'' (Some (lit ''hi'')), textNode ''B'' (Some [])] [plainEdge ''A'' ''B'']
       = \<lparr>isValid = False, errors = [emptyTextError 1]\<rparr>"
  using validateFlow_empty_text[of "[textNode ''A'' (Some (lit ''hi'')), textNode ''B'' (Some [])]"
          1 "[plainEdge ''A'' ''B'']" "textNode ''A'' (Some (lit ''hi''))" "textNode ''B'' (Some [])"
          "plainEdge ''A'' ''B''"]
  by (simp add: textNode_def plainEdge_def)

text \<open>
  Claim C5. When some existing edge leaves the same node through the same source handle
  (two absent handles being equal), \<^verbatim>\<open>canConnect\<close> is false for every target node and
  target handle; when no existing edge does, the two nodes differ and the requested edge
  is not already present, it is true.
\<close>

theorem canConnect_single_outgoing:
  "(hasSameSourcePort s sh edges \<longrightarrow> canConnect s sh t th edges = False)
   \<and> (\<not> hasSameSourcePort s sh edges \<and> s \<noteq> t \<and> \<not> hasExactDuplicate s sh t th edges
        \<longrightarrow> canConnect s sh t th edges = True)"
  by (simp add: canConnect_eq)

theorem canConnect_single_outgoing_witness:
  "hasSameSourcePort (lit ''A'') None [plainEdge ''A'' ''B'']
   \<and> canConnect (lit ''A'') None (lit ''C'') (Some (lit ''in'')) [plainEdge ''A'' ''B''] = False
   \<and> \<not> hasSameSourcePort (lit ''A'') None [] \<and> lit ''A'' \<noteq> lit ''B''
   \<and> \<not> hasExactDuplicate (lit ''A'') None (lit ''B'') None []
   \<and> canConnect (lit ''A'') None (lit ''B'') None [] = True"
  using canConnect_single_outgoing[of "lit ''A''" None "[plainEdge ''A'' ''B'']" "lit ''C''" "Some (lit ''in'')"]
    canConnect_single_outgoing[of "lit ''A''" None "[]" "lit ''B''" None]
  by (simp add: hasSameSourcePort_def hasExactDuplicate_def plainEdge_def lit_def)

text \<open>
  Claim C6, as the specification words it, says that \<^verbatim>\<open>canConnect\<close> is true whenever the
  requested edge is not already present. With the edge from \<open>A\<close> to \<open>B\<close> present, a request
  from \<open>A\<close> to \<open>C\<close> through the same (absent) source handle is no duplicate and is refused.
\<close>

theorem canConnect_no_duplicate_counterexample:
  "\<not> hasExactDuplicate (lit ''A'') None (lit ''C'') None [plainEdge ''A'' ''B'']
   \<and> canConnect (lit ''A'') None (lit ''C'') None [plainEdge ''A'' ''B''] = False"
  by (simp add: hasExactDuplicate_def canConnect_def plainEdge_def lit_def)

text \<open>
  Claim C6, amended. \<^verbatim>\<open>canConnect\<close> is false when the edge list contains an edge with the
  same source, target, source handle and target handle; when it contains none, the answer
  is true exactly when source and target node differ and no existing edge leaves the
  source node through the same source handle.
\<close>

theorem canConnect_exact_duplicate:
  "(hasExactDuplicate s sh t th edges \<longrightarrow> canConnect s sh t th edges = False)
   \<and> (\<not> hasExactDuplicate s sh t th edges \<longrightarrow>
        canConnect s sh t th edges = (s \<noteq> t \<and> \<not> hasSameSourcePort s sh edges))"
  using exactDuplicate_sameSourcePort[of s sh t th edges] by (simp add: canConnect_eq)

theorem canConnect_exact_duplicate_witness:
  "hasExactDuplicate (lit ''A'') None (lit ''B'') None [plainEdge ''A'' ''B'']
   \<and> canConnect (lit ''A'') None (lit ''B'') None [plainEdge ''A'' ''B''] = False
   \<and> \<not> hasExactDuplicate (lit ''B'') None (lit ''C'') None [plainEdge ''A'' ''B'']
   \<and> canConnect (lit ''B'') None (lit ''C'') None [plainEdge ''A'' ''B''] = True"
  using canConnect_exact_duplicate[of "lit ''A''" None "lit ''B''" None "[plainEdge ''A'' ''B'']"]
    canConnect_exact_duplicate[of "lit ''B''" None "lit ''C''" None "[plainEdge ''A'' ''B'']"]
  by (simp add: hasSameSourcePort_def hasExactDuplicate_def plainEdge_def lit_def)

text \<open>
  Claim C7. \<^verbatim>\<open>canConnect\<close> is false whenever source and target node are the same, for all
  handles and all existing edges.
\<close>

theorem canConnect_self_loop: "canConnect s sh s th edges = False"
  by (simp add: canConnect_def)

theorem canConnect_self_loop_witness:
  "canConnect (lit ''A'') (Some (lit ''out'')) (lit ''A'') None [] = False"
  using canConnect_self_loop[of "lit ''A''" "Some (lit ''out'')" None "[]"] by simp

text \<open>
  Claim C10. With more than one node, an isolated-nodes error in the result comes with
  the starting-point error: every isolated node has no incoming edge, so the count of
  isolated nodes is at most the count of nodes without incoming edge. The isolated-nodes
  error is therefore never the only entry of the list.
\<close>

theorem validateFlow_isolated_implies_starting_points:
  "1 < length nodes \<Longrightarrow>
   isolatedNodesError k \<in> set (errors (validateFlow nodes edges)) \<Longrightarrow>
   startingPointError (sourcelessCount nodes edges) \<in> set (errors (validateFlow nodes edges))
   \<and> k \<le> sourcelessCount nodes edges
   \<and> errors (validateFlow nodes edges) \<noteq> [isolatedNodesError k]"
proof -
  assume len: "1 < length nodes"
    and iso: "isolatedNodesError k \<in> set (errors (validateFlow nodes edges))"
  from iso have k: "k = isolatedCount nodes edges" "1 < isolatedCount nodes edges"
    unfolding isolated_mem[OF len] by simp_all
  with isolated_le_sourceless[of nodes edges]
  have s: "1 < sourcelessCount nodes edges" "k \<le> sourcelessCount nodes edges" by simp_all
  then have m: "startingPointError (sourcelessCount nodes edges)
      \<in> set (errors (validateFlow nodes edges))"
    unfolding start_mem[OF len] by simp
  moreover have "errors (validateFlow nodes edges) \<noteq> [isolatedNodesError k]"
    using m by (auto simp: start_neq_isolated)
  ultimately show ?thesis using s by simp
qed

theorem validateFlow_isolated_implies_starting_points_witness:
  "1 < length [textNode ''A'' (Some (lit ''hi'')), textNode ''B'' (Some (lit ''hi''))]
   \<and> isolatedNodesError 2
       \<in> set (errors (validateFlow [textNode ''A'' (Some (lit ''hi'')), textNode ''B'' (Some (lit ''hi''))] []))
   \<and> startingPointError 2
       \<in> set (errors (validateFlow [textNode ''A'' (Some (lit ''hi'')), textNode ''B'' (Some (lit ''hi''))] []))"
proof -
  have len: "1 < length [textNode ''A'' (Some (lit ''hi'')), textNode ''B'' (Some (lit ''hi''))]" by simp
  have iso: "isolatedNodesError 2
       \<in> set (errors (validateFlow [textNode ''A'' (Some (lit ''hi'')), textNode ''B'' (Some (lit ''hi''))] []))"
    unfolding validateFlow_errors[OF len] by (simp add: example_counts)
  from validateFlow_isolated_implies_starting_points[OF len iso] len iso
  show ?thesis by (simp add: example_counts)
qed

section \<open>Properties of the cycle detector\<close>

text \<open>
  The model of \<^verbatim>\<open>hasFlowCycles\<close> always gives a result, a boolean or a \<^verbatim>\<open>TypeError\<close>:
  the depth bound is never reached.
\<close>

theorem hasFlowCycles_returns: "\<exists>r. hasFlowCycles aph nodes edges = Some r"
proof (cases "forEachEdge aph (foldl setEmptyArray emptyObject (map id' nodes)) edges")
  case (Inl e)
  then show ?thesis by (simp add: hasFlowCycles_def)
next
  case (Inr adj)
  let ?T = "target ` set edges"
  let ?U = "id' ` set nodes \<union> (?T \<union> codePointsOf ?T)"
  have "arraysWithin ?T (foldl setEmptyArray emptyObject (map id' nodes))"
    by (rule arraysWithin_foldl[OF arraysWithin_empty])
  from arraysWithin_forEachEdge[OF this _ Inr] have aw: "arraysWithin ?T adj" by simp
  have C: "keysClosed aph adj ?U"
    unfolding keysClosed_def
  proof (intro conjI ballI allI impI)
    show "finite ?U" by (simp add: finite_codePointsOf)
  next
    fix k xs assume "neighborsOf aph adj k = Inr xs"
    from neighborsOf_within[OF aw this] show "set xs \<subseteq> ?U" by auto
  qed
  have "card ?U \<le> card (id' ` set nodes) + card (?T \<union> codePointsOf ?T)" by (rule card_Un_le)
  also have "\<dots> \<le> card (id' ` set nodes) + (card ?T + card (codePointsOf ?T))"
    by (simp add: card_Un_le)
  also have "\<dots> \<le> length nodes + (length edges + sum_list (map (\<lambda>edge. length (target edge)) edges))"
  proof (intro add_mono)
    have "card (id' ` set nodes) \<le> card (set nodes)" by (rule card_image_le) simp
    also have "\<dots> \<le> length nodes" by (rule card_length)
    finally show "card (id' ` set nodes) \<le> length nodes" .
    have "card ?T \<le> card (set edges)" by (rule card_image_le) simp
    also have "\<dots> \<le> length edges" by (rule card_length)
    finally show "card ?T \<le> length edges" .
    show "card (codePointsOf ?T) \<le> sum_list (map (\<lambda>edge. length (target edge)) edges)"
      by (rule card_codePointsOf)
  qed
  finally have depth: "card ?U \<le> callDepth nodes edges" by (simp add: callDepth_def)
  have ids: "set (map id' nodes) \<subseteq> ?U" by auto
  from forNodeIds_returns[OF C ids depth]
  show ?thesis unfolding hasFlowCycles_def Let_def Inr by simp
qed

text \<open>
  When no inherited key is involved, \<^verbatim>\<open>hasFlowCycles\<close> returns, and returns true exactly
  when the graph of the known nodes has a directed cycle.
\<close>

theorem hasFlowCycles_plain:
  assumes "plainKeys nodes edges"
  shows "hasFlowCycles aph nodes edges = Some (Inr (hasDirectedCycle nodes edges))"
proof -
  let ?ids = "map id' nodes"
  from build_plain[OF assms, of aph]
  obtain adj where b: "forEachEdge aph (foldl setEmptyArray emptyObject ?ids) edges = Inr adj"
    and pa: "protoArray adj = None"
    and own: "\<forall>k. ownProps adj k = (if k \<in> id' ` set nodes then Some (targetsFrom edges k) else None)"
    by (elim exE conjE)
  note G = graphView_plain[OF assms pa own, of aph]
  have ids: "set ?ids \<subseteq> id' ` set nodes \<union> target ` set edges" by auto
  have dom: "Domain (outArcs (id' ` set nodes) edges) \<subseteq> set ?ids" by (auto simp: outArcs_def)
  from forNodeIds_decides[OF G ids dom card_keys_le]
  have "forNodeIds (callDepth nodes edges) aph adj \<lparr>visited = {}, recursionStack = {}\<rparr> ?ids
          = Some (Inr (hasDirectedCycle nodes edges))"
    unfolding cyclic_outArcs .
  then show ?thesis
    unfolding hasFlowCycles_def Let_def b by simp
qed

theorem hasFlowCycles_plain_witness:
  "plainKeys [textNode ''A'' None, textNode ''B'' None] [plainEdge ''A'' ''B'', plainEdge ''X'' ''A'']
   \<and> hasFlowCycles (\<lambda>k. False) [textNode ''A'' None, textNode ''B'' None]
        [plainEdge ''A'' ''B'', plainEdge ''X'' ''A'']
       = Some (Inr (hasDirectedCycle [textNode ''A'' None, textNode ''B'' None]
                      [plainEdge ''A'' ''B'', plainEdge ''X'' ''A'']))
   \<and> hasFlowCycles (\<lambda>k. False) [textNode ''A'' None, textNode ''B'' None]
        [plainEdge ''A'' ''B'', plainEdge ''X'' ''A''] = Some (Inr False)"
proof -
  have p: "plainKeys [textNode ''A'' None, textNode ''B'' None] [plainEdge ''A'' ''B'', plainEdge ''X'' ''A'']"
    by (simp add: plainKeys_def inheritedKeys_def objectPrototypeMethods_def textNode_def
          plainEdge_def lit_def)
  have e: "hasFlowCycles (\<lambda>k. False) [textNode ''A'' None, textNode ''B'' None]
        [plainEdge ''A'' ''B'', plainEdge ''X'' ''A''] = Some (Inr False)"
    by (simp add: hasFlowCycles_eval)
  from hasFlowCycles_plain[OF p, of "\<lambda>k. False"] p e show ?thesis by simp
qed

text \<open>
  On such inputs the edges with an unknown source or target make no difference.
\<close>

theorem hasFlowCycles_knownEdges_plain:
  assumes "plainKeys nodes edges"
  shows "hasFlowCycles aph nodes edges = hasFlowCycles aph nodes (knownEdges nodes edges)"
  using hasFlowCycles_plain[OF assms, of aph]
    hasFlowCycles_plain[OF plainKeys_knownEdges[OF assms], of aph]
  by (simp add: hasDirectedCycle_knownEdges)

text \<open>
  Without edges the answer is false for all nodes, and the three sample graphs of the
  specification get its answers: a cycle of two nodes, a single edge, a self-loop.
\<close>

theorem hasFlowCycles_no_edges: "hasFlowCycles aph nodes [] = Some (Inr False)"
proof -
  let ?ids = "map id' nodes"
  let ?adj = "foldl setEmptyArray emptyObject ?ids"
  have aw: "arraysWithin {} ?adj" by (rule arraysWithin_foldl[OF arraysWithin_empty])
  have G: "graphView aph ?adj (set ?ids) {}"
    unfolding graphView_def
  proof (intro conjI ballI)
    show "finite (set ?ids)" by simp
    show "{} \<subseteq> set ?ids \<times> set ?ids" by simp
    fix k assume "k \<in> set ?ids"
    then have "hasKey ?adj k" by (intro hasKey_foldl) simp
    from neighborsOf_empty_arrays[OF aw this]
    show "\<exists>xs. neighborsOf aph ?adj k = Inr xs \<and> set xs = {} `` {k}" by simp
  qed
  have depth: "card (set ?ids) \<le> callDepth nodes []"
    using card_length[of ?ids] by (simp add: callDepth_def)
  have "\<not> cyclic ({} :: (jsstring \<times> jsstring) set)" by (simp add: cyclic_def)
  with forNodeIds_decides[OF G subset_refl _ depth]
  show ?thesis by (simp add: hasFlowCycles_def)
qed

theorem hasFlowCycles_examples:
  "hasFlowCycles aph [textNode ''A'' None, textNode ''B'' None]
     [plainEdge ''A'' ''B'', plainEdge ''B'' ''A''] = Some (Inr True)"
  "hasFlowCycles aph [textNode ''A'' None, textNode ''B'' None]
     [plainEdge ''A'' ''B''] = Some (Inr False)"
  "hasFlowCycles aph [textNode ''A'' None] [plainEdge ''A'' ''A''] = Some (Inr True)"
  by (simp_all add: hasFlowCycles_eval)

text \<open>
  Claim C8 says that \<^verbatim>\<open>hasFlowCycles\<close> returns true exactly when the graph of the known
  nodes has a directed cycle. For the single node \<open>A\<close> and the single edge from \<open>A\<close> to
  a target called \<^verbatim>\<open>constructor\<close>, that graph has no arc and no cycle, and the function
  does not return false: the traversal reaches the key \<^verbatim>\<open>constructor\<close>, the lookup finds
  the function inherited under that name instead of \<^verbatim>\<open>undefined\<close>, and iterating over
  it throws a \<^verbatim>\<open>TypeError\<close>.
\<close>

theorem hasFlowCycles_inherited_target_throws:
  "hasFlowCycles aph [textNode ''A'' None] [plainEdge ''A'' ''constructor''] = Some (Inl TypeError)
   \<and> \<not> hasDirectedCycle [textNode ''A'' None] [plainEdge ''A'' ''constructor'']"
  by (simp add: hasFlowCycles_eval hasDirectedCycle_def flowArcs_def)

text \<open>
  Claim C9 says that the edges with an unknown source or target never change the result.
  For the single node \<open>A\<close> and the single edge from a source called \<^verbatim>\<open>constructor\<close> to
  \<open>A\<close>, no edge is left once the unknown ones are removed and the result without edges is
  false; with the edge, the guard \<^verbatim>\<open>if (adjacencyList[edge.source])\<close> finds the function
  inherited under that name, and calling its \<^verbatim>\<open>push\<close> throws a \<^verbatim>\<open>TypeError\<close>.
\<close>

theorem hasFlowCycles_inherited_source_throws:
  "hasFlowCycles aph [textNode ''A'' None] [plainEdge ''constructor'' ''A''] = Some (Inl TypeError)
   \<and> knownEdges [textNode ''A'' None] [plainEdge ''constructor'' ''A''] = []
   \<and> hasFlowCycles aph [textNode ''A'' None] [] = Some (Inr False)"
  by (simp add: hasFlowCycles_eval knownEdges_def)

end
